theory Spec2Isabelle
  imports Complex_Main "HOL-Library.Log_Nat" "HOL-Library.Word"
begin

section \<open>Go's float64: IEEE 754 binary64 values\<close>

text \<open>
  The aggregator stores \<^verbatim>\<open>float64\<close> values and divides them by 100. A finite binary64
  value is kept as the rational number it denotes; the negative zero, the two infinities
  and the not-a-number value are separate constructors. \<open>Num 0\<close> is the positive zero,
  the zero value of the type (what \<^verbatim>\<open>make([]float64, 4)\<close> fills the slice with).
\<close>

datatype float64 = Num rat | NegZero | PosInf | NegInf | NaN

definition pow2 :: "int \<Rightarrow> rat" where
  "pow2 e = (if 0 \<le> e then 2 ^ nat e else 1 / 2 ^ nat (- e))"

text \<open>Rounding a non-negative rational to an integer, ties to the even neighbour.\<close>

definition round_half_even :: "rat \<Rightarrow> int" where
  "round_half_even r =
     (let f = \<lfloor>r\<rfloor>; d = r - of_int f
      in if d < 1 / 2 then f
         else if 1 / 2 < d then f + 1
         else if even f then f else f + 1)"

text \<open>For \<open>0 < a\<close>, the exponent \<open>e\<close> with \<open>2 ^ e \<le> a < 2 ^ (e + 1)\<close>, from the bit
  lengths of numerator and denominator.\<close>

definition ilog2 :: "rat \<Rightarrow> int" where
  "ilog2 a =
     (let p = fst (quotient_of a); q = snd (quotient_of a);
          k = bitlen p - bitlen q
      in if pow2 k \<le> a then k else k - 1)"

text \<open>
  Round to nearest, ties to even, into binary64. The magnitude \<open>a\<close> is rounded to a multiple
  \<open>m * 2 ^ qe\<close> of its unit in the last place: 53 significant bits, the unit never below
  \<open>2 ^ -1074\<close> (subnormal numbers). The rounded magnitude reaches \<open>2 ^ 1024\<close>, which gives
  an infinity, exactly when \<open>m\<close> has more than \<open>1024 - qe\<close> bits, and a negative number
  that rounds to zero gives the negative zero.
\<close>

definition round64 :: "rat \<Rightarrow> float64" where
  "round64 x =
     (if x = 0 then Num 0
      else
        let a = \<bar>x\<bar>;
            qe = max (ilog2 a - 52) (- 1074);
            m = round_half_even (a / pow2 qe)
        in if 1024 < bitlen m + qe then (if x < 0 then NegInf else PosInf)
           else if m = 0 then (if x < 0 then NegZero else Num 0)
           else Num ((if x < 0 then - 1 else 1) * of_int m * pow2 qe))"

fun is_neg :: "float64 \<Rightarrow> bool" where
  "is_neg (Num q) = (q < 0)"
| "is_neg NegZero = True"
| "is_neg PosInf = False"
| "is_neg NegInf = True"
| "is_neg NaN = False"

fun is_zero :: "float64 \<Rightarrow> bool" where
  "is_zero (Num q) = (q = 0)"
| "is_zero NegZero = True"
| "is_zero _ = False"

fun is_inf :: "float64 \<Rightarrow> bool" where
  "is_inf PosInf = True"
| "is_inf NegInf = True"
| "is_inf _ = False"

fun rat_of_float64 :: "float64 \<Rightarrow> rat" where
  "rat_of_float64 (Num q) = q"
| "rat_of_float64 _ = 0"

definition signed_zero :: "bool \<Rightarrow> float64" where
  "signed_zero neg = (if neg then NegZero else Num 0)"

definition signed_inf :: "bool \<Rightarrow> float64" where
  "signed_inf neg = (if neg then NegInf else PosInf)"

text \<open>The quotient \<^verbatim>\<open>x / y\<close> of two float64 values.\<close>

definition fdiv :: "float64 \<Rightarrow> float64 \<Rightarrow> float64" where
  "fdiv x y =
     (if x = NaN \<or> y = NaN then NaN
      else if is_inf x then (if is_inf y then NaN else signed_inf (is_neg x \<noteq> is_neg y))
      else if is_inf y then signed_zero (is_neg x \<noteq> is_neg y)
      else if is_zero y then (if is_zero x then NaN else signed_inf (is_neg x \<noteq> is_neg y))
      else if is_zero x then signed_zero (is_neg x \<noteq> is_neg y)
      else round64 (rat_of_float64 x / rat_of_float64 y))"

text \<open>The sum \<^verbatim>\<open>x + y\<close> of two float64 values.\<close>

definition fadd :: "float64 \<Rightarrow> float64 \<Rightarrow> float64" where
  "fadd x y =
     (if x = NaN \<or> y = NaN then NaN
      else if is_inf x then (if is_inf y \<and> is_neg x \<noteq> is_neg y then NaN else x)
      else if is_inf y then y
      else if is_zero x \<and> is_zero y then signed_zero (is_neg x \<and> is_neg y)
      else round64 (rat_of_float64 x + rat_of_float64 y))"

section \<open>The functions of Go's strings and strconv packages the program calls\<close>

abbreviation dquote :: char where "dquote \<equiv> CHR 0x22"
abbreviation CR :: char where "CR \<equiv> CHR 0x0D"
abbreviation LF :: char where "LF \<equiv> CHR 0x0A"

text \<open>\<^verbatim>\<open>strings.TrimLeft(s, cutset)\<close>, \<^verbatim>\<open>strings.TrimRight(s, cutset)\<close>: all leading
  (trailing) bytes that occur in the cutset are removed.\<close>

definition TrimLeft :: "string \<Rightarrow> string \<Rightarrow> string" where
  "TrimLeft s cutset = dropWhile (\<lambda>c. c \<in> set cutset) s"

definition TrimRight :: "string \<Rightarrow> string \<Rightarrow> string" where
  "TrimRight s cutset = rev (dropWhile (\<lambda>c. c \<in> set cutset) (rev s))"

text \<open>\<^verbatim>\<open>strings.TrimSuffix(s, suffix)\<close>: the suffix is removed once, when it is there.\<close>

definition TrimSuffix :: "string \<Rightarrow> string \<Rightarrow> string" where
  "TrimSuffix s suffix =
     (if length suffix \<le> length s \<and> drop (length s - length suffix) s = suffix
      then take (length s - length suffix) s else s)"

text \<open>\<^verbatim>\<open>strings.Split(s, sep)\<close> for a separator of one byte: the pieces between the
  separators, one more than there are separators (the empty string gives one empty piece).\<close>

fun Split :: "string \<Rightarrow> char \<Rightarrow> string list" where
  "Split [] sep = [[]]"
| "Split (c # cs) sep =
     (if c = sep then [] # Split cs sep
      else (case Split cs sep of [] \<Rightarrow> [[c]] | p # ps \<Rightarrow> (c # p) # ps))"

text \<open>\<^verbatim>\<open>strconv.Itoa\<close>: the decimal digits of an integer.\<close>

definition digit_char :: "int \<Rightarrow> char" where
  "digit_char d = char_of (48 + d)"

function int_digits :: "int \<Rightarrow> string" where
  "int_digits n = (if n < 10 then [digit_char n] else int_digits (n div 10) @ [digit_char (n mod 10)])"
  by pat_completeness auto
termination
  by (relation "measure nat") auto

definition Itoa :: "int \<Rightarrow> string" where
  "Itoa i = (if i < 0 then CHR ''-'' # int_digits (- i) else int_digits i)"

text \<open>
  \<^verbatim>\<open>strconv.ParseFloat(s, 64)\<close> belongs to Go's library, not to this program: the
  aggregator is modelled for any parser \<open>pf\<close>, \<open>None\<close> standing for a result with
  \<^verbatim>\<open>err != nil\<close> (the aggregator overwrites the value by 0 then). \<open>parse_decimal\<close> is one
  such parser, for the plain decimal literals (sign, digits, one optional point) that
  TypePerf prints: it gives the binary64 value nearest to the literal, as the library does.
\<close>

type_synonym float_parser = "string \<Rightarrow> float64 option"

definition is_digit :: "char \<Rightarrow> bool" where
  "is_digit c = ((48 :: nat) \<le> of_char c \<and> (of_char c :: nat) \<le> 57)"

definition digits_value :: "string \<Rightarrow> int" where
  "digits_value ds = foldl (\<lambda>n c. 10 * n + (of_char c - 48)) 0 ds"

definition parse_unsigned :: "string \<Rightarrow> rat option" where
  "parse_unsigned s =
     (let ip = takeWhile is_digit s; rest = dropWhile is_digit s;
          fp = (case rest of [] \<Rightarrow> [] | c # cs \<Rightarrow> cs)
      in if (rest = [] \<or> hd rest = CHR ''.'') \<and> list_all is_digit fp \<and> ip @ fp \<noteq> []
         then Some (of_int (digits_value ip) + of_int (digits_value fp) / 10 ^ length fp)
         else None)"

definition parse_decimal :: float_parser where
  "parse_decimal s =
     (case s of
        [] \<Rightarrow> None
      | c # cs \<Rightarrow>
          if c = CHR ''-'' then
            (case parse_unsigned cs of None \<Rightarrow> None
             | Some q \<Rightarrow> Some (if q = 0 then NegZero else round64 (- q)))
          else if c = CHR ''+'' then map_option round64 (parse_unsigned cs)
          else map_option round64 (parse_unsigned s))"

section \<open>What the program logs, and how it can fail\<close>

text \<open>One constructor for each \<^verbatim>\<open>log.Println\<close> and \<^verbatim>\<open>log.Printf\<close> call of the file, with
  the values the call prints.\<close>

datatype log_entry =
    FailedStdout string  \<comment> \<open>\<^verbatim>\<open>Failed to connect stdout for TypePerf: \<close> and the error\<close>
  | FailedStart string  \<comment> \<open>\<^verbatim>\<open>Failed to start TypePerf:\<close> and the error\<close>
  | ReadError string  \<comment> \<open>\<^verbatim>\<open>Read error from TypePerf:\<close> and the error\<close>
  | FailedParse nat string  \<comment> \<open>\<^verbatim>\<open>Failed to parse field %d in TypePerf data: '%s'\<close>\<close>
  | DebugValue string float64  \<comment> \<open>\<^verbatim>\<open>CPU%: \<close>, \<^verbatim>\<open>Mem%: \<close>, \<^verbatim>\<open>Swap: \<close> or \<^verbatim>\<open>Disk: \<close> and the value\<close>
  | ReadTimedOut  \<comment> \<open>\<^verbatim>\<open>TypePerf read timed out\<close>\<close>

text \<open>The run-time panic of a slice write \<^verbatim>\<open>values[i-1] = ...\<close> outside the slice: the index
  and the length of the slice.\<close>

datatype panic = IndexOutOfRange nat nat

section \<open>SystemStats: one record of TypePerf data\<close>

text \<open>
  Lines 83 to 105 of \<^verbatim>\<open>sysstats_windows.go\<close>: the slice \<^verbatim>\<open>values\<close> has four elements, the
  loop runs over all fields of the record with their index \<open>i\<close>, skips the field 0 and
  writes the others to \<^verbatim>\<open>values[i-1]\<close>. \<open>debug\<close> is the flag \<^verbatim>\<open>*gArgs.debug\<close>, which is set
  outside this file. The result is what was logged, and the slice or the panic.
\<close>

definition debug_log :: "bool \<Rightarrow> nat \<Rightarrow> float64 \<Rightarrow> log_entry list" where
  "debug_log debug i v =
     (if debug then
        (if i = 1 then [DebugValue ''CPU%: '' v]
         else if i = 2 then [DebugValue ''Mem%: '' v]
         else if i = 3 then [DebugValue ''Swap: '' v]
         else if i = 4 then [DebugValue ''Disk: '' v]
         else [])
      else [])"

definition unquote :: "string \<Rightarrow> string" where
  "unquote field = TrimRight (TrimLeft field [dquote]) [dquote]"

fun SystemStats_fields ::
  "float_parser \<Rightarrow> bool \<Rightarrow> nat \<Rightarrow> string list \<Rightarrow> float64 list \<Rightarrow> log_entry list \<times> (panic + float64 list)"
where
  "SystemStats_fields pf debug i [] values = ([], Inr values)"
| "SystemStats_fields pf debug i (field # rest) values =
     (if i \<noteq> 0 then
        (let parsed = pf (unquote field);
             err_log = (case parsed of None \<Rightarrow> [FailedParse i field] | Some v \<Rightarrow> []);
             v = (case parsed of None \<Rightarrow> Num 0 | Some v \<Rightarrow> v)
         in if i - 1 < length values then
              (case SystemStats_fields pf debug (i + 1) rest (values[i - 1 := fdiv v (Num 100)]) of
                 (lg, res) \<Rightarrow> (err_log @ debug_log debug i v @ lg, res))
            else (err_log, Inl (IndexOutOfRange (i - 1) (length values))))
      else SystemStats_fields pf debug (i + 1) rest values)"

definition SystemStats_record ::
  "float_parser \<Rightarrow> bool \<Rightarrow> string list \<Rightarrow> log_entry list \<times> (panic + float64 list)"
where
  "SystemStats_record pf debug fields = SystemStats_fields pf debug 0 fields (replicate 4 (Num 0))"

section \<open>SystemStats: the aggregator\<close>

text \<open>
  \<^verbatim>\<open>SystemStats\<close> runs as one goroutine. What it receives is decided outside it: each turn
  of its loop waits in one \<^verbatim>\<open>select\<close>, and the outcome of that wait is an input of the model.
  \<^item> \<open>Received fields\<close>: \<^verbatim>\<open>fields, more := <-tp\<close> with \<^verbatim>\<open>more\<close> true;
  \<^item> \<open>StreamClosed\<close>: the same receive with \<^verbatim>\<open>more\<close> false, which the channel reports once
    it is closed and holds no buffered record;
  \<^item> \<open>TimedOut\<close>: \<^verbatim>\<open><-time.After(10 * time.Second)\<close>, ten seconds without the other two.

  What the goroutine does is the list of its actions, in program order. A send is an action
  when the goroutine reaches it: on an unbuffered channel it completes when the other side
  receives.
\<close>

datatype select_outcome = Received "string list" | StreamClosed | TimedOut

datatype action =
    GoTypeperf "64 word option" "string list"  \<comment> \<open>\<^verbatim>\<open>go typeperf(uint(interval.Seconds()), tp, quit, ...)\<close>\<close>
  | Send "float64 list"  \<comment> \<open>\<^verbatim>\<open>results <- values\<close>\<close>
  | Log log_entry
  | SendQuit  \<comment> \<open>\<^verbatim>\<open>quit <- true\<close>\<close>
  | CloseResults  \<comment> \<open>the deferred \<^verbatim>\<open>close(results)\<close>\<close>
  | Crash panic  \<comment> \<open>the panic leaves the goroutine after its deferred calls\<close>

text \<open>The loop of lines 77 to 111. An empty list of outcomes is a loop that still waits.\<close>

fun SystemStats_loop :: "float_parser \<Rightarrow> bool \<Rightarrow> select_outcome list \<Rightarrow> action list" where
  "SystemStats_loop pf debug [] = []"
| "SystemStats_loop pf debug (StreamClosed # outcomes) = [CloseResults]"
| "SystemStats_loop pf debug (Received fields # outcomes) =
     (case SystemStats_record pf debug fields of
        (lg, Inr values) \<Rightarrow> map Log lg @ Send values # SystemStats_loop pf debug outcomes
      | (lg, Inl p) \<Rightarrow> map Log lg @ [CloseResults, Crash p])"
| "SystemStats_loop pf debug (TimedOut # outcomes) =
     Log ReadTimedOut # SendQuit # SystemStats_loop pf debug outcomes"

text \<open>
  \<^verbatim>\<open>time.Duration\<close> is a number of nanoseconds in an \<^verbatim>\<open>int64\<close>. \<^verbatim>\<open>Duration.Seconds\<close> of
  Go's library is \<^verbatim>\<open>float64(d / Second) + float64(d % Second) / 1e9\<close>, with Go's division
  that truncates towards zero. The conversion \<^verbatim>\<open>uint(f)\<close> discards the fraction; Go leaves
  its result open when the truncated value is not a \<^verbatim>\<open>uint\<close> (here of 64 bits): \<open>None\<close>.
\<close>

definition Second :: int where
  "Second = 1000000000"

definition go_quo :: "int \<Rightarrow> int \<Rightarrow> int" where
  "go_quo a b = sgn a * sgn b * (\<bar>a\<bar> div \<bar>b\<bar>)"

definition go_rem :: "int \<Rightarrow> int \<Rightarrow> int" where
  "go_rem a b = a - b * go_quo a b"

definition float64_of_int :: "int \<Rightarrow> float64" where
  "float64_of_int n = round64 (of_int n)"

definition Seconds :: "int \<Rightarrow> float64" where
  "Seconds d =
     fadd (float64_of_int (go_quo d Second))
          (fdiv (float64_of_int (go_rem d Second)) (Num 1000000000))"

definition truncate_rat :: "rat \<Rightarrow> int" where
  "truncate_rat q = (if q < 0 then - \<lfloor>- q\<rfloor> else \<lfloor>q\<rfloor>)"

definition uint_of_float64 :: "float64 \<Rightarrow> 64 word option" where
  "uint_of_float64 f =
     (case f of
        Num q \<Rightarrow>
          (let t = truncate_rat q
           in if 0 \<le> t \<and> t < 2 ^ 64 then Some (word_of_int t) else None)
      | NegZero \<Rightarrow> Some 0
      | _ \<Rightarrow> None)"

abbreviation bslash :: char where "bslash \<equiv> CHR 0x5C"

definition counters :: "string list" where
  "counters =
     [bslash # ''Processor(_Total)'' @ bslash # ''% Processor Time'',
      bslash # ''Memory'' @ bslash # ''% Committed Bytes In Use'',
      bslash # ''Paging file(_Total)'' @ bslash # ''% Usage'',
      bslash # ''PhysicalDisk(_Total)'' @ bslash # ''% Disk Time'']"

definition SystemStats ::
  "float_parser \<Rightarrow> bool \<Rightarrow> int \<Rightarrow> select_outcome list \<Rightarrow> action list"
where
  "SystemStats pf debug interval outcomes =
     GoTypeperf (uint_of_float64 (Seconds interval)) counters
       # Send (replicate 4 (Num 0))
       # SystemStats_loop pf debug outcomes"

section \<open>typeperf: the counter source\<close>

text \<open>
  The goroutine \<^verbatim>\<open>typeperf\<close> talks to the subprocess. What the subprocess and the operating
  system do is an input of the model: the error of \<^verbatim>\<open>cmd.StdoutPipe()\<close> and of
  \<^verbatim>\<open>cmd.Start()\<close> if there is one, the results of the successive \<^verbatim>\<open>reader.ReadString\<close>
  calls (a line with its final line feed, or an error), and for each turn of the loop
  whether the \<^verbatim>\<open>select\<close> finds a value on \<^verbatim>\<open>quit\<close>. The deferred calls run last in, first
  out: \<^verbatim>\<open>cmd.Process.Kill()\<close> and then \<^verbatim>\<open>close(result)\<close>.
\<close>

datatype read_result = Line string | ReadFailed string

datatype source_action =
    Start string "string list"  \<comment> \<open>\<^verbatim>\<open>cmd.Start()\<close> has started the command with these arguments\<close>
  | SourceLog log_entry
  | Emit "string list"  \<comment> \<open>\<^verbatim>\<open>result <- ...\<close>\<close>
  | Kill  \<comment> \<open>the deferred \<^verbatim>\<open>cmd.Process.Kill()\<close>\<close>
  | CloseResult  \<comment> \<open>the deferred \<^verbatim>\<open>close(result)\<close>\<close>

fun typeperf_loop :: "bool list \<Rightarrow> read_result list \<Rightarrow> source_action list" where
  "typeperf_loop [] reads = []"
| "typeperf_loop (True # quits) reads = [Kill, CloseResult]"
| "typeperf_loop (False # quits) [] = []"
| "typeperf_loop (False # quits) (ReadFailed err # reads) =
     [SourceLog (ReadError err), Kill, CloseResult]"
| "typeperf_loop (False # quits) (Line line # reads) =
     Emit (Split (TrimSuffix line [CR, LF]) (CHR '','')) # typeperf_loop quits reads"

definition typeperf_args :: "64 word \<Rightarrow> string list \<Rightarrow> string list" where
  "typeperf_args interval fields = fields @ [''-si'', Itoa (sint interval)]"

definition typeperf ::
  "64 word \<Rightarrow> string list \<Rightarrow> string option \<Rightarrow> string option \<Rightarrow> bool list \<Rightarrow> read_result list
     \<Rightarrow> source_action list"
where
  "typeperf interval fields pipe_err start_err quits reads =
     (case pipe_err of
        Some err \<Rightarrow> [SourceLog (FailedStdout err), CloseResult]
      | None \<Rightarrow>
          (case start_err of
             Some err \<Rightarrow> [SourceLog (FailedStart err), CloseResult]
           | None \<Rightarrow>
               Start ''TypePerf'' (typeperf_args interval fields)
                 # (if length reads < 2 then [] else typeperf_loop quits (drop 2 reads))))"

section \<open>The channel between the two goroutines\<close>

text \<open>
  Line 66: \<^verbatim>\<open>tp := make(chan []string, 5)\<close>, a channel with a buffer of five records;
  its state is the records buffered in it, oldest first, and whether it has been closed.
  \<^verbatim>\<open>typeperf\<close> sends on it (line 56) and closes it (line 22, deferred); \<^verbatim>\<open>SystemStats\<close>
  receives from it (line 79). In Go a send on a buffered channel completes when the buffer
  has room and waits for a receive otherwise; a receive takes the oldest buffered record,
  with \<^verbatim>\<open>more\<close> true; when no record is buffered it reports \<^verbatim>\<open>more\<close> false if the channel
  is closed, and waits otherwise. Closing the channel leaves the buffered records in it.
\<close>

datatype tp_chan = Chan (queue: "string list list") (closed: bool)

definition tp_cap :: nat where
  "tp_cap = 5"

definition tp_make :: tp_chan where
  "tp_make = Chan [] False"

text \<open>The channel after \<^verbatim>\<open>typeperf\<close> has done these actions with no receive in between.
  \<open>None\<close> when it cannot do them all so: a send that finds five records buffered waits for a
  receive (and a send or a close on a closed channel is a panic; \<^verbatim>\<open>typeperf\<close> closes the
  channel once, as its last action).\<close>

fun tp_after :: "source_action list \<Rightarrow> tp_chan \<Rightarrow> tp_chan option" where
  "tp_after [] c = Some c"
| "tp_after (Emit r # acts) c =
     (if closed c \<or> tp_cap \<le> length (queue c) then None
      else tp_after acts (Chan (queue c @ [r]) (closed c)))"
| "tp_after (CloseResult # acts) c =
     (if closed c then None else tp_after acts (Chan (queue c) True))"
| "tp_after (a # acts) c = tp_after acts c"

text \<open>One \<^verbatim>\<open>select\<close> of \<^verbatim>\<open>SystemStats\<close> on the channel while \<^verbatim>\<open>typeperf\<close> does nothing (it
  has returned, or it waits in a read): the outcome and the channel after it. With no
  record buffered and the channel open only the timer of line 107 ends the \<^verbatim>\<open>select\<close>.
  \<open>tp_selects n\<close> is \<open>n\<close> such turns one after the other.\<close>

definition tp_select :: "tp_chan \<Rightarrow> select_outcome \<times> tp_chan" where
  "tp_select c =
     (case queue c of
        r # rs \<Rightarrow> (Received r, Chan rs (closed c))
      | [] \<Rightarrow> (if closed c then StreamClosed else TimedOut, c))"

fun tp_selects :: "nat \<Rightarrow> tp_chan \<Rightarrow> select_outcome list" where
  "tp_selects 0 c = []"
| "tp_selects (Suc n) c = (case tp_select c of (out, c') \<Rightarrow> out # tp_selects n c')"

section \<open>Notions the properties are stated with\<close>

text \<open>The value the loop body works with for one field: what the parser gives for the
  field without its quotes, or 0 when the parser reports an error.\<close>

definition field_value :: "float_parser \<Rightarrow> string \<Rightarrow> float64" where
  "field_value pf field = (case pf (unquote field) of None \<Rightarrow> Num 0 | Some v \<Rightarrow> v)"

text \<open>The loop of \<^verbatim>\<open>SystemStats\<close> is still running after these outcomes: the stream has
  not been reported closed, and no record had more than five fields.\<close>

fun still_sampling :: "select_outcome list \<Rightarrow> bool" where
  "still_sampling [] = True"
| "still_sampling (StreamClosed # outcomes) = False"
| "still_sampling (Received fields # outcomes) = (length fields \<le> 5 \<and> still_sampling outcomes)"
| "still_sampling (TimedOut # outcomes) = still_sampling outcomes"

fun is_Send :: "action \<Rightarrow> bool" where
  "is_Send (Send v) = True"
| "is_Send _ = False"

fun is_Emit :: "source_action \<Rightarrow> bool" where
  "is_Emit (Emit r) = True"
| "is_Emit _ = False"

fun is_Start :: "source_action \<Rightarrow> bool" where
  "is_Start (Start c args) = True"
| "is_Start _ = False"

text \<open>The examples of the specification: a field in double quotes, the line of the round
  trip as TypePerf writes it, the record of its five fields, and the record with an
  unparsable first data field.\<close>

definition quoted :: "string \<Rightarrow> string" where
  "quoted s = dquote # s @ [dquote]"

definition roundtrip_line :: string where
  "roundtrip_line =
     quoted ''20231001120000.000'' @ '','' @ quoted ''45.2'' @ '','' @ quoted ''60.0''
       @ '','' @ quoted ''0.0'' @ '','' @ quoted ''12.5'' @ [CR, LF]"

definition roundtrip_record :: "string list" where
  "roundtrip_record =
     [quoted ''20231001120000.000'', quoted ''45.2'', quoted ''60.0'', quoted ''0.0'', quoted ''12.5'']"

definition malformed_record :: "string list" where
  "malformed_record = [quoted ''ts'', quoted ''abc'', quoted ''60.0'', quoted ''0.0'', quoted ''12.5'']"

text \<open>The float64 value of a decimal literal: the digits \<open>n\<close>, the last \<open>d\<close> of them after
  the point, so that \<open>decimal 452 3\<close> is the constant \<^verbatim>\<open>0.452\<close>.\<close>

definition decimal :: "int \<Rightarrow> nat \<Rightarrow> float64" where
  "decimal n d = round64 (of_int n / 10 ^ d)"

text \<open>Rounding a rational to the nearest integer, halves away from zero: what "rounded to
  whole seconds" says of a duration (Go's \<^verbatim>\<open>Duration.Round\<close> rounds so).\<close>

definition round_nearest :: "rat \<Rightarrow> int" where
  "round_nearest q = (if q < 0 then - \<lfloor>- q + 1 / 2\<rfloor> else \<lfloor>q + 1 / 2\<rfloor>)"

section \<open>One record: the slice that is written\<close>

lemma SystemStats_fields_in_range:
  assumes "1 \<le> i" and "i - 1 + length fs \<le> length vs0"
  shows "\<exists>lg vs. SystemStats_fields pf debug i fs vs0 = (lg, Inr vs) \<and> length vs = length vs0 \<and>
           (\<forall>k<length vs0. vs ! k =
              (if i - 1 \<le> k \<and> k < i - 1 + length fs
               then fdiv (field_value pf (fs ! (k - (i - 1)))) (Num 100) else vs0 ! k))"
  using assms
proof (induction fs arbitrary: i vs0)
  case Nil
  then show ?case by auto
next
  case (Cons f fs)
  let ?v = "field_value pf f"
  let ?upd = "vs0[i - 1 := fdiv ?v (Num 100)]"
  from Cons.prems have inb: "i - 1 < length vs0" by simp
  from Cons.prems have "1 \<le> i + 1" and "(i + 1) - 1 + length fs \<le> length ?upd" by simp_all
  from Cons.IH[OF this] obtain lg vs where
    rec: "SystemStats_fields pf debug (i + 1) fs ?upd = (lg, Inr vs)"
    and len: "length vs = length ?upd"
    and vals: "\<forall>k<length ?upd. vs ! k =
              (if (i + 1) - 1 \<le> k \<and> k < (i + 1) - 1 + length fs
               then fdiv (field_value pf (fs ! (k - ((i + 1) - 1)))) (Num 100) else ?upd ! k)"
    by blast
  have v_eq: "(case pf (unquote f) of None \<Rightarrow> Num 0 | Some v \<Rightarrow> v) = ?v"
    by (simp add: field_value_def)
  from Cons.prems inb rec
  have "SystemStats_fields pf debug i (f # fs) vs0 =
          ((case pf (unquote f) of None \<Rightarrow> [FailedParse i f] | Some v \<Rightarrow> []) @ debug_log debug i ?v @ lg, Inr vs)"
    by (simp add: Let_def v_eq)
  moreover have "length vs = length vs0" using len by simp
  moreover have "\<forall>k<length vs0. vs ! k =
              (if i - 1 \<le> k \<and> k < i - 1 + length (f # fs)
               then fdiv (field_value pf ((f # fs) ! (k - (i - 1)))) (Num 100) else vs0 ! k)"
  proof (intro allI impI)
    fix k assume k: "k < length vs0"
    show "vs ! k = (if i - 1 \<le> k \<and> k < i - 1 + length (f # fs)
               then fdiv (field_value pf ((f # fs) ! (k - (i - 1)))) (Num 100) else vs0 ! k)"
    proof (cases "k = i - 1")
      case True
      with vals k inb Cons.prems show ?thesis by auto
    next
      case False
      with vals k inb Cons.prems show ?thesis
        by (auto simp: nth_Cons' Suc_diff_le)
    qed
  qed
  ultimately show ?case by blast
qed

lemma SystemStats_fields_overflow:
  assumes "1 \<le> i" and "i - 1 \<le> length vs0" and "length vs0 < i - 1 + length fs"
  shows "\<exists>lg. SystemStats_fields pf debug i fs vs0
            = (lg, Inl (IndexOutOfRange (length vs0) (length vs0)))"
  using assms
proof (induction fs arbitrary: i vs0)
  case Nil
  then show ?case by simp
next
  case (Cons f fs)
  show ?case
  proof (cases "i - 1 < length vs0")
    case True
    let ?upd = "vs0[i - 1 := fdiv (case pf (unquote f) of None \<Rightarrow> Num 0 | Some v \<Rightarrow> v) (Num 100)]"
    from True Cons.prems have "1 \<le> i + 1" "(i + 1) - 1 \<le> length ?upd"
      "length ?upd < (i + 1) - 1 + length fs" by simp_all
    from Cons.IH[OF this] obtain lg where
      "SystemStats_fields pf debug (i + 1) fs ?upd = (lg, Inl (IndexOutOfRange (length vs0) (length vs0)))"
      by auto
    with True Cons.prems show ?thesis by (simp add: Let_def)
  next
    case False
    with Cons.prems have "i - 1 = length vs0" by simp
    with False Cons.prems show ?thesis by (simp add: Let_def)
  qed
qed

lemma SystemStats_record_Nil: "SystemStats_record pf debug [] = ([], Inr (replicate 4 (Num 0)))"
  by (simp add: SystemStats_record_def)

lemma SystemStats_record_Cons:
  "SystemStats_record pf debug (ts # fs) = SystemStats_fields pf debug 1 fs (replicate 4 (Num 0))"
  by (simp add: SystemStats_record_def)

lemma debug_log_no_FailedParse: "FailedParse j f \<notin> set (debug_log debug i v)"
  by (simp add: debug_log_def)

lemma SystemStats_fields_log:
  assumes "1 \<le> i" and "i - 1 + length fs \<le> length vs0"
  shows "FailedParse j f \<in> set (fst (SystemStats_fields pf debug i fs vs0)) \<longleftrightarrow>
           (i \<le> j \<and> j < i + length fs \<and> f = fs ! (j - i) \<and> pf (unquote f) = None)"
  using assms
proof (induction fs arbitrary: i vs0)
  case Nil
  then show ?case by simp
next
  case (Cons g fs)
  let ?upd = "vs0[i - 1 := fdiv (case pf (unquote g) of None \<Rightarrow> Num 0 | Some v \<Rightarrow> v) (Num 100)]"
  from Cons.prems have inb: "i - 1 < length vs0" by simp
  from Cons.prems have "1 \<le> i + 1" and "(i + 1) - 1 + length fs \<le> length ?upd" by simp_all
  note IH = Cons.IH[OF this]
  obtain lg res where rec: "SystemStats_fields pf debug (i + 1) fs ?upd = (lg, res)"
    by (cases "SystemStats_fields pf debug (i + 1) fs ?upd")
  from IH rec have lg: "FailedParse j f \<in> set lg \<longleftrightarrow>
      (i + 1 \<le> j \<and> j < i + 1 + length fs \<and> f = fs ! (j - (i + 1)) \<and> pf (unquote f) = None)"
    by simp
  from Cons.prems inb rec
  have "fst (SystemStats_fields pf debug i (g # fs) vs0) =
          (case pf (unquote g) of None \<Rightarrow> [FailedParse i g] | Some v \<Rightarrow> [])
            @ debug_log debug i (case pf (unquote g) of None \<Rightarrow> Num 0 | Some v \<Rightarrow> v) @ lg"
    by (simp add: Let_def)
  then have "FailedParse j f \<in> set (fst (SystemStats_fields pf debug i (g # fs) vs0)) \<longleftrightarrow>
      (j = i \<and> f = g \<and> pf (unquote g) = None) \<or> FailedParse j f \<in> set lg"
    by (auto simp: debug_log_no_FailedParse split: option.splits)
  also have "\<dots> \<longleftrightarrow> (i \<le> j \<and> j < i + length (g # fs) \<and> f = (g # fs) ! (j - i) \<and> pf (unquote f) = None)"
  proof (cases "j = i")
    case True
    then show ?thesis using lg by auto
  next
    case False
    then show ?thesis using lg by (auto simp: nth_Cons' Suc_diff_le)
  qed
  finally show ?case .
qed

lemma SystemStats_fields_length:
  "SystemStats_fields pf debug i fs vs0 = (lg, Inr vs) \<Longrightarrow> length vs = length vs0"
proof (induction fs arbitrary: i vs0 lg)
  case Nil
  then show ?case by simp
next
  case (Cons f fs)
  show ?case
  proof (cases "i = 0")
    case True
    with Cons show ?thesis by simp
  next
    case False
    let ?upd = "vs0[i - 1 := fdiv (case pf (unquote f) of None \<Rightarrow> Num 0 | Some v \<Rightarrow> v) (Num 100)]"
    obtain lg' res where rec: "SystemStats_fields pf debug (i + 1) fs ?upd = (lg', res)"
      by (cases "SystemStats_fields pf debug (i + 1) fs ?upd")
    with False Cons.prems have "res = Inr vs"
      by (simp add: Let_def split: if_splits)
    with rec Cons.IH[of "i + 1" ?upd lg'] show ?thesis by simp
  qed
qed

lemma SystemStats_record_length:
  "SystemStats_record pf debug fields = (lg, Inr vs) \<Longrightarrow> length vs = 4"
  by (auto simp: SystemStats_record_def dest: SystemStats_fields_length)

lemma SystemStats_record_small:
  assumes "length fields \<le> 5"
  shows "\<exists>lg vs. SystemStats_record pf debug fields = (lg, Inr vs) \<and> length vs = 4 \<and>
           (\<forall>k<4. vs ! k = (if Suc k < length fields
                             then fdiv (field_value pf (fields ! Suc k)) (Num 100) else Num 0))"
proof (cases fields)
  case Nil
  then show ?thesis by (simp add: SystemStats_record_Nil)
next
  case (Cons ts fs)
  with assms have "(1::nat) \<le> 1" and "1 - 1 + length fs \<le> length (replicate 4 (Num 0))"
    by simp_all
  from SystemStats_fields_in_range[OF this, of pf debug] Cons show ?thesis
    by (auto simp: SystemStats_record_Cons)
qed

lemma SystemStats_record_large:
  assumes "6 \<le> length fields"
  shows "\<exists>lg. SystemStats_record pf debug fields = (lg, Inl (IndexOutOfRange 4 4))"
proof (cases fields)
  case Nil
  with assms show ?thesis by simp
next
  case (Cons ts fs)
  with assms have "(1::nat) \<le> 1" and "1 - 1 \<le> length (replicate 4 (Num 0))"
    and "length (replicate 4 (Num 0)) < 1 - 1 + length fs"
    by simp_all
  from SystemStats_fields_overflow[OF this, of pf debug] Cons show ?thesis
    by (auto simp: SystemStats_record_Cons)
qed

lemma SystemStats_record_log:
  assumes "length fields \<le> 5"
  shows "FailedParse j f \<in> set (fst (SystemStats_record pf debug fields)) \<longleftrightarrow>
           (1 \<le> j \<and> j < length fields \<and> f = fields ! j \<and> pf (unquote f) = None)"
proof (cases fields)
  case Nil
  then show ?thesis by (simp add: SystemStats_record_Nil)
next
  case (Cons ts fs)
  with assms have "(1::nat) \<le> 1" and "1 - 1 + length fs \<le> length (replicate 4 (Num 0))"
    by simp_all
  from SystemStats_fields_log[OF this, of j f pf debug] Cons show ?thesis
    by (auto simp: SystemStats_record_Cons)
qed

section \<open>The examples of the specification\<close>

lemma list_of_length_four:
  "length xs = 4 \<Longrightarrow> xs = [xs ! 0, xs ! 1, xs ! 2, xs ! 3]"
  by (cases xs; cases "tl xs"; cases "tl (tl xs)"; cases "tl (tl (tl xs))") auto

lemma all_less_four:
  "(\<forall>k<4. P k) \<longleftrightarrow> P 0 \<and> P 1 \<and> P 2 \<and> P (3::nat)"
proof -
  have "\<And>k::nat. k < 4 \<longleftrightarrow> k = 0 \<or> k = 1 \<or> k = 2 \<or> k = 3" by arith
  then show ?thesis by auto
qed

lemma unquote_quoted_decimal [simp]:
  "unquote (quoted ''abc'') = ''abc''"
  "unquote (quoted ''45.2'') = ''45.2''"
  "unquote (quoted ''60.0'') = ''60.0''"
  "unquote (quoted ''0.0'') = ''0.0''"
  "unquote (quoted ''12.5'') = ''12.5''"
  by (simp_all add: unquote_def quoted_def TrimLeft_def TrimRight_def)

lemma fdiv_examples:
  "fdiv (decimal 452 1) (Num 100) = decimal 452 3"
  "fdiv (decimal 600 1) (Num 100) = decimal 600 3"
  "fdiv (decimal 0 1) (Num 100) = decimal 0 3"
  "fdiv (decimal 125 1) (Num 100) = decimal 125 3"
  "fdiv (Num 0) (Num 100) = decimal 0 3"
  by code_simp+

lemma malformed_record_vector:
  assumes "pf ''abc'' = None" "pf ''60.0'' = Some (decimal 600 1)"
    "pf ''0.0'' = Some (decimal 0 1)" "pf ''12.5'' = Some (decimal 125 1)"
  shows "\<exists>lg. SystemStats_record pf debug malformed_record =
           (lg, Inr [decimal 0 3, decimal 600 3, decimal 0 3, decimal 125 3]) \<and>
           (\<forall>j f. FailedParse j f \<in> set lg \<longleftrightarrow> j = 1 \<and> f = quoted ''abc'')"
proof -
  have len: "length malformed_record \<le> 5" by (simp add: malformed_record_def)
  from SystemStats_record_small[OF len, of pf debug] obtain lg vs where
    rec: "SystemStats_record pf debug malformed_record = (lg, Inr vs)" and l4: "length vs = 4"
    and vals: "\<forall>k<4. vs ! k = (if Suc k < length malformed_record
                 then fdiv (field_value pf (malformed_record ! Suc k)) (Num 100) else Num 0)"
    by blast
  from vals assms have "vs ! 0 = decimal 0 3" "vs ! 1 = decimal 600 3" "vs ! 2 = decimal 0 3"
    "vs ! 3 = decimal 125 3"
    by (simp_all add: all_less_four malformed_record_def field_value_def fdiv_examples [unfolded One_nat_def])
  with list_of_length_four[OF l4] have vs: "vs = [decimal 0 3, decimal 600 3, decimal 0 3, decimal 125 3]"
    by simp
  have "\<forall>j f. FailedParse j f \<in> set lg \<longleftrightarrow> j = 1 \<and> f = quoted ''abc''"
  proof (intro allI)
    fix j f
    have l5: "length malformed_record = 5" by (simp add: malformed_record_def)
    from SystemStats_record_log[OF len, of j f pf debug] rec l5
    have "FailedParse j f \<in> set lg \<longleftrightarrow>
            (1 \<le> j \<and> j < 5 \<and> f = malformed_record ! j \<and> pf (unquote f) = None)"
      by simp
    also have "\<dots> \<longleftrightarrow> j = 1 \<and> f = quoted ''abc''"
    proof -
      have "1 \<le> j \<and> j < 5 \<longleftrightarrow> j = 1 \<or> j = 2 \<or> j = 3 \<or> j = 4" by arith
      then show ?thesis using assms by (auto simp: malformed_record_def)
    qed
    finally show "FailedParse j f \<in> set lg \<longleftrightarrow> j = 1 \<and> f = quoted ''abc''" .
  qed
  with rec vs show ?thesis by blast
qed

section \<open>The vectors that are sent\<close>

lemma SystemStats_loop_Send_length:
  "Send v \<in> set (SystemStats_loop pf debug outcomes) \<Longrightarrow> length v = 4"
proof (induction pf debug outcomes rule: SystemStats_loop.induct)
  case (3 pf debug fields outcomes)
  obtain lg res where rec: "SystemStats_record pf debug fields = (lg, res)"
    by (cases "SystemStats_record pf debug fields")
  show ?case
  proof (cases res)
    case (Inl p)
    with rec "3.prems" show ?thesis by auto
  next
    case (Inr vs)
    with rec "3.prems" "3.IH" SystemStats_record_length[of pf debug fields lg vs]
    show ?thesis by auto
  qed
qed auto

section \<open>Claims about one record\<close>

text \<open>
  Claim C9. The loop body writes the field with index \<open>i \<ge> 1\<close> to the position \<open>i - 1\<close> of a
  slice of four elements. For a record of at most five fields every such position is inside
  the slice, the record is processed to a vector, and the position \<open>i - 1\<close> holds the value of
  field \<open>i\<close> divided by 100. For a record of six or more fields the write of field 5 is
  outside the slice: the processing ends in the panic for index 4 of a slice of length 4.
  So a record is processed without a panic exactly when it has at most five fields.
\<close>

theorem C9_slice_write_in_bounds:
  "(length fields \<le> 5 \<longrightarrow>
      (\<exists>lg vs. SystemStats_record pf debug fields = (lg, Inr vs) \<and> length vs = 4 \<and>
         (\<forall>i. 1 \<le> i \<and> i < length fields \<longrightarrow>
            i - 1 < length vs \<and> vs ! (i - 1) = fdiv (field_value pf (fields ! i)) (Num 100)))) \<and>
   (6 \<le> length fields \<longrightarrow>
      (\<exists>lg. SystemStats_record pf debug fields = (lg, Inl (IndexOutOfRange 4 4))))"
proof (intro conjI impI)
  assume len: "length fields \<le> 5"
  from SystemStats_record_small[OF len, of pf debug] obtain lg vs where
    rec: "SystemStats_record pf debug fields = (lg, Inr vs)" and l4: "length vs = 4"
    and vals: "\<forall>k<4. vs ! k = (if Suc k < length fields
                 then fdiv (field_value pf (fields ! Suc k)) (Num 100) else Num 0)"
    by blast
  have "\<forall>i. 1 \<le> i \<and> i < length fields \<longrightarrow>
            i - 1 < length vs \<and> vs ! (i - 1) = fdiv (field_value pf (fields ! i)) (Num 100)"
  proof (intro allI impI)
    fix i assume i: "1 \<le> i \<and> i < length fields"
    with len have "i - 1 < 4" and "Suc (i - 1) = i" by arith+
    with vals i l4 show "i - 1 < length vs \<and> vs ! (i - 1) = fdiv (field_value pf (fields ! i)) (Num 100)"
      by auto
  qed
  with rec l4 show "\<exists>lg vs. SystemStats_record pf debug fields = (lg, Inr vs) \<and> length vs = 4 \<and>
         (\<forall>i. 1 \<le> i \<and> i < length fields \<longrightarrow>
            i - 1 < length vs \<and> vs ! (i - 1) = fdiv (field_value pf (fields ! i)) (Num 100))"
    by blast
next
  assume "6 \<le> length fields"
  then show "\<exists>lg. SystemStats_record pf debug fields = (lg, Inl (IndexOutOfRange 4 4))"
    by (rule SystemStats_record_large)
qed

text \<open>The malformed record of the specification has five fields; with one more field
  it has six.\<close>

theorem C9_slice_write_in_bounds_witness:
  "length malformed_record \<le> 5 \<and>
   (\<exists>lg vs. SystemStats_record parse_decimal False malformed_record = (lg, Inr vs) \<and> length vs = 4) \<and>
   6 \<le> length (malformed_record @ [quoted ''1.0'']) \<and>
   (\<exists>lg. SystemStats_record parse_decimal False (malformed_record @ [quoted ''1.0''])
      = (lg, Inl (IndexOutOfRange 4 4)))"
proof -
  have a: "length malformed_record \<le> 5" and b: "6 \<le> length (malformed_record @ [quoted ''1.0''])"
    by (simp_all add: malformed_record_def)
  from C9_slice_write_in_bounds[of malformed_record parse_decimal False] a
  have "\<exists>lg vs. SystemStats_record parse_decimal False malformed_record = (lg, Inr vs) \<and> length vs = 4"
    by blast
  moreover from C9_slice_write_in_bounds[of "malformed_record @ [quoted ''1.0'']" parse_decimal False] b
  have "\<exists>lg. SystemStats_record parse_decimal False (malformed_record @ [quoted ''1.0''])
      = (lg, Inl (IndexOutOfRange 4 4))"
    by blast
  ultimately show ?thesis using a b by blast
qed

text \<open>
  Claim C10. Every vector \<^verbatim>\<open>SystemStats\<close> sends on the results channel, the first one and
  the one of each record, has length 4, however many fields the records have. For a record
  of at most five fields a vector is sent, and its positions from the number of data fields
  on, for which the record has no field, are 0.0.
\<close>

theorem C10_sent_vectors_have_length_four:
  "(\<forall>v. Send v \<in> set (SystemStats pf debug interval outcomes) \<longrightarrow> length v = 4) \<and>
   (length fields \<le> 5 \<longrightarrow>
      (\<exists>lg vs. SystemStats_loop pf debug (Received fields # outcomes)
                  = map Log lg @ Send vs # SystemStats_loop pf debug outcomes \<and>
               length vs = 4 \<and>
               (\<forall>k. length fields - 1 \<le> k \<and> k < 4 \<longrightarrow> vs ! k = Num 0)))"
proof (intro conjI allI impI)
  fix v assume "Send v \<in> set (SystemStats pf debug interval outcomes)"
  then have "v = replicate 4 (Num 0) \<or> Send v \<in> set (SystemStats_loop pf debug outcomes)"
    by (auto simp: SystemStats_def)
  then show "length v = 4"
    by (auto dest: SystemStats_loop_Send_length)
next
  assume len: "length fields \<le> 5"
  from SystemStats_record_small[OF len, of pf debug] obtain lg vs where
    rec: "SystemStats_record pf debug fields = (lg, Inr vs)" and l4: "length vs = 4"
    and vals: "\<forall>k<4. vs ! k = (if Suc k < length fields
                 then fdiv (field_value pf (fields ! Suc k)) (Num 100) else Num 0)"
    by blast
  from vals have "\<forall>k. length fields - 1 \<le> k \<and> k < 4 \<longrightarrow> vs ! k = Num 0"
    by auto
  with rec l4 show "\<exists>lg vs. SystemStats_loop pf debug (Received fields # outcomes)
                  = map Log lg @ Send vs # SystemStats_loop pf debug outcomes \<and>
               length vs = 4 \<and>
               (\<forall>k. length fields - 1 \<le> k \<and> k < 4 \<longrightarrow> vs ! k = Num 0)"
    by auto
qed

text \<open>A record with one data field: the vector has length 4, its last three positions
  are 0.0.\<close>

theorem C10_sent_vectors_have_length_four_witness:
  "Send [decimal 452 3, Num 0, Num 0, Num 0]
     \<in> set (SystemStats parse_decimal False 1000000000 [Received [quoted ''ts'', quoted ''45.2'']]) \<and>
   length [decimal 452 3, Num 0, Num 0, Num 0] = 4 \<and>
   length [quoted ''ts'', quoted ''45.2''] \<le> 5 \<and>
   (\<exists>lg vs. SystemStats_loop parse_decimal False [Received [quoted ''ts'', quoted ''45.2'']]
               = map Log lg @ [Send vs] \<and> length vs = 4 \<and> vs ! 1 = Num 0 \<and> vs ! 2 = Num 0 \<and> vs ! 3 = Num 0)"
proof -
  have rec: "SystemStats_record parse_decimal False [quoted ''ts'', quoted ''45.2'']
               = ([], Inr [decimal 452 3, Num 0, Num 0, Num 0])"
    by code_simp
  then have mem: "Send [decimal 452 3, Num 0, Num 0, Num 0]
     \<in> set (SystemStats parse_decimal False 1000000000 [Received [quoted ''ts'', quoted ''45.2'']])"
    by (simp add: SystemStats_def)
  have len: "length [quoted ''ts'', quoted ''45.2''] \<le> 5" by simp
  from C10_sent_vectors_have_length_four[of parse_decimal False 1000000000
      "[Received [quoted ''ts'', quoted ''45.2'']]" "[]"] mem
  have l4: "length [decimal 452 3, Num 0, Num 0, Num 0] = 4" by blast
  from C10_sent_vectors_have_length_four[of parse_decimal False 0 "[]"
      "[quoted ''ts'', quoted ''45.2'']"] len
  obtain lg vs where
    "SystemStats_loop parse_decimal False [Received [quoted ''ts'', quoted ''45.2'']]
       = map Log lg @ Send vs # SystemStats_loop parse_decimal False []"
    and "length vs = 4"
    and "\<forall>k. length [quoted ''ts'', quoted ''45.2''] - 1 \<le> k \<and> k < 4 \<longrightarrow> vs ! k = Num 0"
    by blast
  then have "\<exists>lg vs. SystemStats_loop parse_decimal False [Received [quoted ''ts'', quoted ''45.2'']]
               = map Log lg @ [Send vs] \<and> length vs = 4 \<and> vs ! 1 = Num 0 \<and> vs ! 2 = Num 0 \<and> vs ! 3 = Num 0"
    by auto
  with mem l4 len show ?thesis by blast
qed

text \<open>
  Claim C1. A record of a sampling tick has \<open>N + 1\<close> fields: the timestamp and one field for
  each of the \<open>N\<close> requested counters. \<^verbatim>\<open>SystemStats\<close> requests the four counters of lines 68
  to 71, so \<open>N\<close> is their number. For every such record whose fields after the timestamp are
  all well-formed (the parser accepts each of them without its quotes), the aggregator
  sends one vector for the record; the vector has length \<open>N\<close>, its position \<open>k < N\<close> is the
  parsed value of field \<open>k + 1\<close> divided by 100, and no parse failure is logged.
\<close>

theorem C1_vector_of_well_formed_record:
  assumes "N = length counters" and "length fields = N + 1"
    and "\<forall>k<N. pf (unquote (fields ! (k + 1))) = Some (parsed k)"
  shows "\<exists>lg vs. SystemStats_loop pf debug (Received fields # outcomes)
                   = map Log lg @ Send vs # SystemStats_loop pf debug outcomes \<and>
           length vs = N \<and>
           (\<forall>k<N. vs ! k = fdiv (parsed k) (Num 100)) \<and>
           (\<forall>j f. FailedParse j f \<notin> set lg)"
proof -
  from assms(1) have N: "N = 4" by (simp add: counters_def)
  with assms(2) have len: "length fields \<le> 5" by simp
  from SystemStats_record_small[OF len, of pf debug] obtain lg vs where
    rec: "SystemStats_record pf debug fields = (lg, Inr vs)" and l4: "length vs = 4"
    and vals: "\<forall>k<4. vs ! k = (if Suc k < length fields
                 then fdiv (field_value pf (fields ! Suc k)) (Num 100) else Num 0)"
    by blast
  have a: "\<forall>k<N. vs ! k = fdiv (parsed k) (Num 100)"
  proof (intro allI impI)
    fix k assume k: "k < N"
    with assms N have "k < 4" and "Suc k < length fields"
      and "field_value pf (fields ! Suc k) = parsed k"
      by (simp_all add: field_value_def)
    with vals show "vs ! k = fdiv (parsed k) (Num 100)" by simp
  qed
  have c: "\<forall>j f. FailedParse j f \<notin> set lg"
  proof (intro allI notI)
    fix j f assume "FailedParse j f \<in> set lg"
    with SystemStats_record_log[OF len, of j f pf debug] rec
    have j: "1 \<le> j" "j < length fields" and none: "pf (unquote (fields ! j)) = None"
      by auto
    from j assms(2) have "j - 1 < N" and "j - 1 + 1 = j" by arith+
    with assms(3) have "pf (unquote (fields ! j)) = Some (parsed (j - 1))" by metis
    with none show False by simp
  qed
  from rec have "SystemStats_loop pf debug (Received fields # outcomes)
                   = map Log lg @ Send vs # SystemStats_loop pf debug outcomes"
    by simp
  with l4 N a c show ?thesis by blast
qed

text \<open>A record of a timestamp and four well-formed fields, with the parser of decimal
  literals.\<close>

theorem C1_vector_of_well_formed_record_witness:
  "length [quoted ''ts'', quoted ''3.5'', quoted ''47.0'', quoted ''0.25'', quoted ''100.0'']
     = length counters + 1 \<and>
   parse_decimal (unquote (quoted ''3.5'')) = Some (decimal 35 1) \<and>
   parse_decimal (unquote (quoted ''47.0'')) = Some (decimal 470 1) \<and>
   parse_decimal (unquote (quoted ''0.25'')) = Some (decimal 25 2) \<and>
   parse_decimal (unquote (quoted ''100.0'')) = Some (decimal 1000 1) \<and>
   (\<exists>lg vs. SystemStats_loop parse_decimal False
               [Received [quoted ''ts'', quoted ''3.5'', quoted ''47.0'', quoted ''0.25'', quoted ''100.0'']]
               = map Log lg @ [Send vs] \<and> length vs = 4 \<and>
               vs ! 0 = fdiv (decimal 35 1) (Num 100) \<and> vs ! 1 = fdiv (decimal 470 1) (Num 100) \<and>
               vs ! 2 = fdiv (decimal 25 2) (Num 100) \<and> vs ! 3 = fdiv (decimal 1000 1) (Num 100))"
proof -
  let ?fields = "[quoted ''ts'', quoted ''3.5'', quoted ''47.0'', quoted ''0.25'', quoted ''100.0'']"
  let ?parsed = "\<lambda>k::nat. if k = 0 then decimal 35 1 else if k = 1 then decimal 470 1
                   else if k = 2 then decimal 25 2 else decimal 1000 1"
  have p1: "parse_decimal (unquote (quoted ''3.5'')) = Some (decimal 35 1)"
    and p2: "parse_decimal (unquote (quoted ''47.0'')) = Some (decimal 470 1)"
    and p3: "parse_decimal (unquote (quoted ''0.25'')) = Some (decimal 25 2)"
    and p4: "parse_decimal (unquote (quoted ''100.0'')) = Some (decimal 1000 1)"
    by code_simp+
  have h1: "length counters = length counters" by simp
  have c4: "length counters = 4" by (simp add: counters_def)
  then have h2: "length ?fields = length counters + 1" by simp
  have h3: "\<forall>k<length counters. parse_decimal (unquote (?fields ! (k + 1))) = Some (?parsed k)"
  proof (intro allI impI)
    fix k :: nat assume "k < length counters"
    with c4 have "k = 0 \<or> k = 1 \<or> k = 2 \<or> k = 3" by arith
    then show "parse_decimal (unquote (?fields ! (k + 1))) = Some (?parsed k)"
      using p1 p2 p3 p4 by auto
  qed
  from C1_vector_of_well_formed_record[OF h1 h2 h3, of False "[]"]
  obtain lg vs where
    "SystemStats_loop parse_decimal False [Received ?fields] = map Log lg @ Send vs # SystemStats_loop parse_decimal False []"
    and "length vs = length counters"
    and "\<forall>k<length counters. vs ! k = fdiv (?parsed k) (Num 100)"
    by blast
  with c4 have "\<exists>lg vs. SystemStats_loop parse_decimal False [Received ?fields]
               = map Log lg @ [Send vs] \<and> length vs = 4 \<and>
               vs ! 0 = fdiv (decimal 35 1) (Num 100) \<and> vs ! 1 = fdiv (decimal 470 1) (Num 100) \<and>
               vs ! 2 = fdiv (decimal 25 2) (Num 100) \<and> vs ! 3 = fdiv (decimal 1000 1) (Num 100)"
    by (intro exI[of _ lg] exI[of _ vs]) auto
  with h2 p1 p2 p3 p4 show ?thesis by blast
qed

lemma fdiv_zero_by_100: "fdiv (Num 0) (Num 100) = Num 0"
  by (simp add: fdiv_def signed_zero_def)

lemma decimal_zero: "decimal 0 3 = Num 0"
  by (simp add: decimal_def round64_def)

lemma roundtrip_line_fields:
  "Split (TrimSuffix roundtrip_line [CR, LF]) (CHR '','') =
     [quoted ''20231001120000.000'', quoted ''45.2'', quoted ''60.0'', quoted ''0.0'', quoted ''12.5'']"
  by code_simp

lemma roundtrip_record_vector:
  assumes "pf ''45.2'' = Some (decimal 452 1)" "pf ''60.0'' = Some (decimal 600 1)"
    "pf ''0.0'' = Some (decimal 0 1)" "pf ''12.5'' = Some (decimal 125 1)"
  shows "\<exists>lg. SystemStats_record pf debug
           [quoted ''20231001120000.000'', quoted ''45.2'', quoted ''60.0'', quoted ''0.0'', quoted ''12.5'']
           = (lg, Inr [decimal 452 3, decimal 600 3, decimal 0 3, decimal 125 3])"
proof -
  let ?fields = "[quoted ''20231001120000.000'', quoted ''45.2'', quoted ''60.0'', quoted ''0.0'', quoted ''12.5'']"
  have len: "length ?fields \<le> 5" by simp
  from SystemStats_record_small[OF len, of pf debug] obtain lg vs where
    rec: "SystemStats_record pf debug ?fields = (lg, Inr vs)" and l4: "length vs = 4"
    and vals: "\<forall>k<4. vs ! k = (if Suc k < length ?fields
                 then fdiv (field_value pf (?fields ! Suc k)) (Num 100) else Num 0)"
    by blast
  from vals assms have "vs ! 0 = decimal 452 3" "vs ! 1 = decimal 600 3" "vs ! 2 = decimal 0 3"
    "vs ! 3 = decimal 125 3"
    by (simp_all add: all_less_four field_value_def fdiv_examples [unfolded One_nat_def])
  with list_of_length_four[OF l4] have "vs = [decimal 452 3, decimal 600 3, decimal 0 3, decimal 125 3]"
    by simp
  with rec show ?thesis by blast
qed

text \<open>
  Claim C2. The counter source, started for the four counters, reads the two header lines
  and then the line
  \<^verbatim>\<open>"20231001120000.000","45.2","60.0","0.0","12.5"\<close> ended by carriage return and line
  feed; it emits the five fields of the line as one record. For that record the aggregator
  sends the vector of the float64 constants \<^verbatim>\<open>[0.452, 0.600, 0.000, 0.125]\<close>. The parser is
  Go's: all that is used of it is that it gives, for each of the four numerals, the float64
  nearest to it.
\<close>

theorem C2_round_trip:
  assumes "pf ''45.2'' = Some (decimal 452 1)" and "pf ''60.0'' = Some (decimal 600 1)"
    and "pf ''0.0'' = Some (decimal 0 1)" and "pf ''12.5'' = Some (decimal 125 1)"
  shows "\<exists>fields lg.
           typeperf interval counters None None [False] [header1, header2, Line roundtrip_line]
             = [Start ''TypePerf'' (typeperf_args interval counters), Emit fields] \<and>
           length counters = 4 \<and>
           SystemStats_loop pf debug [Received fields]
             = map Log lg @ [Send [decimal 452 3, decimal 600 3, decimal 0 3, decimal 125 3]]"
proof -
  let ?fields = "[quoted ''20231001120000.000'', quoted ''45.2'', quoted ''60.0'', quoted ''0.0'', quoted ''12.5'']"
  have "typeperf interval counters None None [False] [header1, header2, Line roundtrip_line]
          = [Start ''TypePerf'' (typeperf_args interval counters), Emit ?fields]"
    by (simp add: typeperf_def roundtrip_line_fields)
  moreover have "length counters = 4" by (simp add: counters_def)
  moreover from roundtrip_record_vector[OF assms, of debug] obtain lg where
    "SystemStats_record pf debug ?fields = (lg, Inr [decimal 452 3, decimal 600 3, decimal 0 3, decimal 125 3])"
    by blast
  then have "SystemStats_loop pf debug [Received ?fields]
             = map Log lg @ [Send [decimal 452 3, decimal 600 3, decimal 0 3, decimal 125 3]]"
    by simp
  ultimately show ?thesis by blast
qed

text \<open>The parser of decimal literals meets the four conditions.\<close>

theorem C2_round_trip_witness:
  "parse_decimal ''45.2'' = Some (decimal 452 1) \<and> parse_decimal ''60.0'' = Some (decimal 600 1) \<and>
   parse_decimal ''0.0'' = Some (decimal 0 1) \<and> parse_decimal ''12.5'' = Some (decimal 125 1) \<and>
   (\<exists>fields lg.
      typeperf 1 counters None None [False] [Line [CR, LF], Line [CR, LF], Line roundtrip_line]
        = [Start ''TypePerf'' (typeperf_args 1 counters), Emit fields] \<and>
      SystemStats_loop parse_decimal False [Received fields]
        = map Log lg @ [Send [decimal 452 3, decimal 600 3, decimal 0 3, decimal 125 3]])"
proof -
  have p: "parse_decimal ''45.2'' = Some (decimal 452 1)" "parse_decimal ''60.0'' = Some (decimal 600 1)"
    "parse_decimal ''0.0'' = Some (decimal 0 1)" "parse_decimal ''12.5'' = Some (decimal 125 1)"
    by code_simp+
  from C2_round_trip[OF p, of 1 "Line [CR, LF]" "Line [CR, LF]" False] p show ?thesis
    by blast
qed

text \<open>
  Claim C3. Take a record for which the aggregator emits a vector, and in which exactly one
  field after the timestamp, the field \<open>j\<close>, fails to parse. The vector has exactly 0.0 at
  the position \<open>j - 1\<close> of that field; every other field \<open>i\<close> has its parsed value divided
  by 100 at its position \<open>i - 1\<close>; and the log has a parse failure for the index \<open>j\<close> and
  the text of that field, and no other parse failure. In particular, for the record
  \<^verbatim>\<open>"ts","abc","60.0","0.0","12.5"\<close> the aggregator sends \<^verbatim>\<open>[0.0, 0.600, 0.000, 0.125]\<close>
  and logs one parse failure, for the field with index 1.
\<close>

theorem C3_unparsable_field:
  "(SystemStats_record pf debug fields = (lg, Inr vs) \<and>
    1 \<le> j \<and> j < length fields \<and> pf (unquote (fields ! j)) = None \<and>
    (\<forall>i. 1 \<le> i \<and> i < length fields \<and> i \<noteq> j \<longrightarrow> pf (unquote (fields ! i)) = Some (parsed i))
    \<longrightarrow>
      vs ! (j - 1) = Num 0 \<and>
      (\<forall>i. 1 \<le> i \<and> i < length fields \<and> i \<noteq> j \<longrightarrow> vs ! (i - 1) = fdiv (parsed i) (Num 100)) \<and>
      (\<forall>i f. FailedParse i f \<in> set lg \<longleftrightarrow> i = j \<and> f = fields ! j)) \<and>
   (pf ''abc'' = None \<and> pf ''60.0'' = Some (decimal 600 1) \<and>
    pf ''0.0'' = Some (decimal 0 1) \<and> pf ''12.5'' = Some (decimal 125 1)
    \<longrightarrow>
      (\<exists>lg'. SystemStats_loop pf debug [Received malformed_record]
                = map Log lg' @ [Send [decimal 0 3, decimal 600 3, decimal 0 3, decimal 125 3]] \<and>
              decimal 0 3 = Num 0 \<and>
              (\<forall>i f. FailedParse i f \<in> set lg' \<longleftrightarrow> i = 1 \<and> f = quoted ''abc'')))"
proof (intro conjI impI)
  assume h: "SystemStats_record pf debug fields = (lg, Inr vs) \<and>
    1 \<le> j \<and> j < length fields \<and> pf (unquote (fields ! j)) = None \<and>
    (\<forall>i. 1 \<le> i \<and> i < length fields \<and> i \<noteq> j \<longrightarrow> pf (unquote (fields ! i)) = Some (parsed i))"
  then have rec: "SystemStats_record pf debug fields = (lg, Inr vs)"
    and j: "1 \<le> j" "j < length fields" and none: "pf (unquote (fields ! j)) = None"
    and others: "\<forall>i. 1 \<le> i \<and> i < length fields \<and> i \<noteq> j \<longrightarrow> pf (unquote (fields ! i)) = Some (parsed i)"
    by blast+
  have len: "length fields \<le> 5"
  proof (rule ccontr)
    assume "\<not> length fields \<le> 5"
    then have "6 \<le> length fields" by simp
    from SystemStats_record_large[OF this, of pf debug] rec show False by auto
  qed
  from SystemStats_record_small[OF len, of pf debug] rec
  have vals: "\<forall>k<4. vs ! k = (if Suc k < length fields
                 then fdiv (field_value pf (fields ! Suc k)) (Num 100) else Num 0)"
    by auto
  have at: "\<And>i. 1 \<le> i \<Longrightarrow> i < length fields \<Longrightarrow>
              vs ! (i - 1) = fdiv (field_value pf (fields ! i)) (Num 100)"
  proof -
    fix i assume i: "1 \<le> i" "i < length fields"
    with len have "i - 1 < 4" and "Suc (i - 1) = i" by arith+
    with vals i show "vs ! (i - 1) = fdiv (field_value pf (fields ! i)) (Num 100)" by auto
  qed
  from at[OF j] none show "vs ! (j - 1) = Num 0"
    by (simp add: field_value_def fdiv_zero_by_100)
  show "\<forall>i. 1 \<le> i \<and> i < length fields \<and> i \<noteq> j \<longrightarrow> vs ! (i - 1) = fdiv (parsed i) (Num 100)"
  proof (intro allI impI)
    fix i assume i: "1 \<le> i \<and> i < length fields \<and> i \<noteq> j"
    with others have "field_value pf (fields ! i) = parsed i" by (simp add: field_value_def)
    with at[of i] i show "vs ! (i - 1) = fdiv (parsed i) (Num 100)" by simp
  qed
  show "\<forall>i f. FailedParse i f \<in> set lg \<longleftrightarrow> i = j \<and> f = fields ! j"
  proof (intro allI)
    fix i f
    from SystemStats_record_log[OF len, of i f pf debug] rec
    have "FailedParse i f \<in> set lg \<longleftrightarrow>
            (1 \<le> i \<and> i < length fields \<and> f = fields ! i \<and> pf (unquote f) = None)"
      by simp
    also have "\<dots> \<longleftrightarrow> i = j \<and> f = fields ! j"
      using j none others by (cases "i = j") auto
    finally show "FailedParse i f \<in> set lg \<longleftrightarrow> i = j \<and> f = fields ! j" .
  qed
next
  assume "pf ''abc'' = None \<and> pf ''60.0'' = Some (decimal 600 1) \<and>
    pf ''0.0'' = Some (decimal 0 1) \<and> pf ''12.5'' = Some (decimal 125 1)"
  then have a: "pf ''abc'' = None" "pf ''60.0'' = Some (decimal 600 1)"
    "pf ''0.0'' = Some (decimal 0 1)" "pf ''12.5'' = Some (decimal 125 1)"
    by blast+
  from malformed_record_vector[OF a, of debug] obtain lg' where
    "SystemStats_record pf debug malformed_record
       = (lg', Inr [decimal 0 3, decimal 600 3, decimal 0 3, decimal 125 3])"
    and lg': "\<forall>j f. FailedParse j f \<in> set lg' \<longleftrightarrow> j = 1 \<and> f = quoted ''abc''"
    by blast
  then have "SystemStats_loop pf debug [Received malformed_record]
                = map Log lg' @ [Send [decimal 0 3, decimal 600 3, decimal 0 3, decimal 125 3]]"
    by simp
  with lg' decimal_zero
  show "\<exists>lg'. SystemStats_loop pf debug [Received malformed_record]
                = map Log lg' @ [Send [decimal 0 3, decimal 600 3, decimal 0 3, decimal 125 3]] \<and>
              decimal 0 3 = Num 0 \<and>
              (\<forall>i f. FailedParse i f \<in> set lg' \<longleftrightarrow> i = 1 \<and> f = quoted ''abc'')"
    by blast
qed

text \<open>The malformed record of the specification with the parser of decimal literals.\<close>

theorem C3_unparsable_field_witness:
  "SystemStats_record parse_decimal False malformed_record
     = ([FailedParse 1 (quoted ''abc'')], Inr [Num 0, decimal 600 3, Num 0, decimal 125 3]) \<and>
   parse_decimal (unquote (malformed_record ! 1)) = None \<and>
   parse_decimal (unquote (malformed_record ! 2)) = Some (decimal 600 1) \<and>
   parse_decimal (unquote (malformed_record ! 3)) = Some (decimal 0 1) \<and>
   parse_decimal (unquote (malformed_record ! 4)) = Some (decimal 125 1) \<and>
   [Num 0, decimal 600 3, Num 0, decimal 125 3] ! (1 - 1) = Num 0 \<and>
   [Num 0, decimal 600 3, Num 0, decimal 125 3] ! (2 - 1) = fdiv (decimal 600 1) (Num 100) \<and>
   FailedParse 1 (malformed_record ! 1) \<in> set [FailedParse 1 (quoted ''abc'')] \<and>
   parse_decimal ''abc'' = None \<and> parse_decimal ''60.0'' = Some (decimal 600 1) \<and>
   parse_decimal ''0.0'' = Some (decimal 0 1) \<and> parse_decimal ''12.5'' = Some (decimal 125 1) \<and>
   (\<exists>lg'. SystemStats_loop parse_decimal False [Received malformed_record]
            = map Log lg' @ [Send [decimal 0 3, decimal 600 3, decimal 0 3, decimal 125 3]] \<and>
          FailedParse 1 (quoted ''abc'') \<in> set lg')"
proof -
  let ?lg = "[FailedParse 1 (quoted ''abc'')]"
  let ?vs = "[Num 0, decimal 600 3, Num 0, decimal 125 3]"
  let ?parsed = "\<lambda>i::nat. if i = 2 then decimal 600 1 else if i = 3 then decimal 0 1 else decimal 125 1"
  have rec: "SystemStats_record parse_decimal False malformed_record = (?lg, Inr ?vs)"
    by code_simp
  have f1: "parse_decimal (unquote (malformed_record ! 1)) = None"
    and f2: "parse_decimal (unquote (malformed_record ! 2)) = Some (decimal 600 1)"
    and f3: "parse_decimal (unquote (malformed_record ! 3)) = Some (decimal 0 1)"
    and f4: "parse_decimal (unquote (malformed_record ! 4)) = Some (decimal 125 1)"
    by code_simp+
  have p: "parse_decimal ''abc'' = None" "parse_decimal ''60.0'' = Some (decimal 600 1)"
    "parse_decimal ''0.0'' = Some (decimal 0 1)" "parse_decimal ''12.5'' = Some (decimal 125 1)"
    by code_simp+
  have l5: "length malformed_record = 5" by (simp add: malformed_record_def)
  have others: "\<forall>i. 1 \<le> i \<and> i < length malformed_record \<and> i \<noteq> 1
                  \<longrightarrow> parse_decimal (unquote (malformed_record ! i)) = Some (?parsed i)"
  proof (intro allI impI)
    fix i :: nat assume "1 \<le> i \<and> i < length malformed_record \<and> i \<noteq> 1"
    with l5 have "i = 2 \<or> i = 3 \<or> i = 4" by arith
    then show "parse_decimal (unquote (malformed_record ! i)) = Some (?parsed i)"
      using f2 f3 f4 by auto
  qed
  note inst = C3_unparsable_field[of parse_decimal False malformed_record ?lg ?vs 1 ?parsed]
  from inst rec f1 others l5
  have a: "?vs ! (1 - 1) = Num 0"
    and b: "\<forall>i. 1 \<le> i \<and> i < length malformed_record \<and> i \<noteq> 1
              \<longrightarrow> ?vs ! (i - 1) = fdiv (?parsed i) (Num 100)"
    and c: "\<forall>i f. FailedParse i f \<in> set ?lg \<longleftrightarrow> i = 1 \<and> f = malformed_record ! 1"
    by simp_all
  from b [rule_format, of 2] l5 have b2: "?vs ! (2 - 1) = fdiv (decimal 600 1) (Num 100)"
    by simp
  from c have c1: "FailedParse 1 (malformed_record ! 1) \<in> set ?lg" by blast
  from inst p obtain lg' where
    "SystemStats_loop parse_decimal False [Received malformed_record]
       = map Log lg' @ [Send [decimal 0 3, decimal 600 3, decimal 0 3, decimal 125 3]]"
    and "\<forall>i f. FailedParse i f \<in> set lg' \<longleftrightarrow> i = 1 \<and> f = quoted ''abc''"
    by blast
  then have d: "\<exists>lg'. SystemStats_loop parse_decimal False [Received malformed_record]
            = map Log lg' @ [Send [decimal 0 3, decimal 600 3, decimal 0 3, decimal 125 3]] \<and>
          FailedParse 1 (quoted ''abc'') \<in> set lg'"
    by blast
  from rec f1 f2 f3 f4 a b2 c1 p d show ?thesis by blast
qed

section \<open>The loop of the aggregator\<close>

lemma SystemStats_loop_append:
  "still_sampling earlier \<Longrightarrow>
     SystemStats_loop pf debug (earlier @ later)
       = SystemStats_loop pf debug earlier @ SystemStats_loop pf debug later"
proof (induction earlier rule: still_sampling.induct)
  case (3 fields outcomes)
  then have len: "length fields \<le> 5" and rest: "still_sampling outcomes" by simp_all
  from SystemStats_record_small[OF len, of pf debug] obtain lg vs where
    "SystemStats_record pf debug fields = (lg, Inr vs)" by blast
  with "3.IH"[OF rest] show ?case by simp
qed simp_all

lemma debug_log_no_ReadTimedOut: "ReadTimedOut \<notin> set (debug_log debug i v)"
  by (simp add: debug_log_def)

lemma SystemStats_fields_no_ReadTimedOut:
  "ReadTimedOut \<notin> set (fst (SystemStats_fields pf debug i fs vs0))"
proof (induction fs arbitrary: i vs0)
  case Nil
  then show ?case by simp
next
  case (Cons f fs)
  let ?upd = "vs0[i - 1 := fdiv (case pf (unquote f) of None \<Rightarrow> Num 0 | Some v \<Rightarrow> v) (Num 100)]"
  obtain lg res where rec: "SystemStats_fields pf debug (i + 1) fs ?upd = (lg, res)"
    by (cases "SystemStats_fields pf debug (i + 1) fs ?upd")
  with Cons.IH[of "i + 1" ?upd] have "ReadTimedOut \<notin> set lg" by simp
  with rec Cons.IH[of "i + 1" vs0] show ?case
    by (auto simp: Let_def debug_log_no_ReadTimedOut split: option.splits)
qed

lemma SystemStats_record_no_ReadTimedOut:
  "SystemStats_record pf debug fields = (lg, res) \<Longrightarrow> ReadTimedOut \<notin> set lg"
  using SystemStats_fields_no_ReadTimedOut[of pf debug 0 fields "replicate 4 (Num 0)"]
  by (simp add: SystemStats_record_def)

lemma count_list_map_Log_SendQuit: "count_list (map Log lg) SendQuit = 0"
  by (induction lg) simp_all

lemma count_list_map_Log_ReadTimedOut:
  "ReadTimedOut \<notin> set lg \<Longrightarrow> count_list (map Log lg) (Log ReadTimedOut) = 0"
  by (induction lg) auto

lemma SystemStats_loop_count:
  "still_sampling outcomes \<Longrightarrow>
     count_list (SystemStats_loop pf debug outcomes) SendQuit = count_list outcomes TimedOut \<and>
     count_list (SystemStats_loop pf debug outcomes) (Log ReadTimedOut) = count_list outcomes TimedOut"
proof (induction outcomes rule: still_sampling.induct)
  case (3 fields outcomes)
  then have len: "length fields \<le> 5" and rest: "still_sampling outcomes" by simp_all
  from SystemStats_record_small[OF len, of pf debug] obtain lg vs where
    rec: "SystemStats_record pf debug fields = (lg, Inr vs)" by blast
  from SystemStats_record_no_ReadTimedOut[OF rec] have "ReadTimedOut \<notin> set lg" .
  with rec "3.IH"[OF rest] show ?case
    by (simp add: count_list_map_Log_SendQuit count_list_map_Log_ReadTimedOut)
qed simp_all

text \<open>Records of at most five fields, received one after the other: one vector each, and
  the loop is still running.\<close>

lemma SystemStats_loop_Received:
  "list_all (\<lambda>r. length r \<le> 5) rs \<Longrightarrow>
     length (filter is_Send (SystemStats_loop pf debug (map Received rs))) = length rs \<and>
     still_sampling (map Received rs)"
proof (induction rs)
  case Nil
  then show ?case by simp
next
  case (Cons r rs)
  then have len: "length r \<le> 5" by simp
  from SystemStats_record_small[OF len, of pf debug] obtain lg vs where
    "SystemStats_record pf debug r = (lg, Inr vs)" by blast
  with Cons show ?case by (simp add: comp_def)
qed

section \<open>The channel between the two goroutines: what a receive reports\<close>

lemma tp_selects_drained:
  "queue c = [] \<Longrightarrow> closed c \<Longrightarrow> tp_selects k c = replicate k StreamClosed"
  by (induction k) (simp_all add: tp_select_def)

text \<open>On a closed channel the successive receives report the buffered records, oldest
  first, and after the last of them that the channel is closed.\<close>

lemma tp_selects_closed:
  "closed c \<Longrightarrow>
     tp_selects (length (queue c) + Suc m) c = map Received (queue c) @ replicate (Suc m) StreamClosed"
proof (induction "queue c" arbitrary: c)
  case Nil
  then have "queue c = []" by simp
  from tp_selects_drained[OF this Nil(2), of "Suc m"] this show ?case
    by (simp del: replicate.simps)
next
  case (Cons r rs)
  from Cons(2) have q: "queue c = r # rs" by simp
  have "rs = queue (Chan rs (closed c))" by simp
  from Cons(1)[OF this] Cons(3) q show ?case by (simp add: tp_select_def)
qed

lemma tp_after_stays_closed:
  "tp_after acts c0 = Some c \<Longrightarrow> closed c0 \<Longrightarrow> closed c"
  by (induction acts c0 rule: tp_after.induct) (auto split: if_splits)

text \<open>The channel is closed when \<^verbatim>\<open>typeperf\<close> has done its \<^verbatim>\<open>close(result)\<close>, and only then; it
  never holds more than five records.\<close>

lemma tp_after_closed:
  "tp_after acts c0 = Some c \<Longrightarrow> \<not> closed c0 \<Longrightarrow> closed c = (CloseResult \<in> set acts)"
proof (induction acts c0 rule: tp_after.induct)
  case (3 acts c0)
  then have "tp_after acts (Chan (queue c0) True) = Some c" by simp
  from tp_after_stays_closed[OF this] show ?case by simp
qed (auto split: if_splits)

lemma tp_after_capacity:
  "tp_after acts c0 = Some c \<Longrightarrow> length (queue c0) \<le> tp_cap \<Longrightarrow> length (queue c) \<le> tp_cap"
  by (induction acts c0 rule: tp_after.induct) (auto split: if_splits)

section \<open>Claims about the two goroutines\<close>

text \<open>
  Claim C4. For every call of \<^verbatim>\<open>SystemStats\<close> (every parser, debug flag and interval, and
  whatever the subprocess does later), the first vector sent on the results channel is the
  vector of four zeros. It is sent before any record is waited for: the goroutine starts
  \<^verbatim>\<open>typeperf\<close> and sends the vector as its first two actions, the same two actions it has
  done when no \<^verbatim>\<open>select\<close> has returned yet.
\<close>

theorem C4_first_result_is_zero_vector:
  "find is_Send (SystemStats pf debug interval outcomes) = Some (Send [Num 0, Num 0, Num 0, Num 0]) \<and>
   take 2 (SystemStats pf debug interval outcomes) = SystemStats pf debug interval [] \<and>
   last (SystemStats pf debug interval []) = Send [Num 0, Num 0, Num 0, Num 0]"
  by (simp add: SystemStats_def numeral_eq_Suc)

text \<open>A run that receives a record and then finds the stream closed.\<close>

theorem C4_first_result_is_zero_vector_witness:
  "find is_Send (SystemStats parse_decimal False 1000000000 [Received malformed_record, StreamClosed])
     = Some (Send [Num 0, Num 0, Num 0, Num 0]) \<and>
   take 2 (SystemStats parse_decimal False 1000000000 [Received malformed_record, StreamClosed])
     = SystemStats parse_decimal False 1000000000 []"
  using C4_first_result_is_zero_vector[of parse_decimal False 1000000000 "[Received malformed_record, StreamClosed]"]
  by blast

text \<open>
  Claim C6. When \<^verbatim>\<open>cmd.StdoutPipe()\<close> fails, or when it succeeds and \<^verbatim>\<open>cmd.Start()\<close> fails,
  \<^verbatim>\<open>typeperf\<close> logs the error and closes its channel, and does nothing else: it emits no
  record and starts no command, whatever the subprocess would have printed, and it does not
  try again. The aggregator, which then finds the stream closed, closes the results channel.
\<close>

theorem C6_startup_failure_closes_sink:
  "(pipe_err = Some err \<longrightarrow>
      typeperf interval fields pipe_err start_err quits reads = [SourceLog (FailedStdout err), CloseResult]) \<and>
   (pipe_err = None \<and> start_err = Some err \<longrightarrow>
      typeperf interval fields pipe_err start_err quits reads = [SourceLog (FailedStart err), CloseResult]) \<and>
   (pipe_err \<noteq> None \<or> start_err \<noteq> None \<longrightarrow>
      \<not> list_ex is_Emit (typeperf interval fields pipe_err start_err quits reads) \<and>
      \<not> list_ex is_Start (typeperf interval fields pipe_err start_err quits reads) \<and>
      last (typeperf interval fields pipe_err start_err quits reads) = CloseResult \<and>
      SystemStats_loop pf debug [StreamClosed] = [CloseResults])"
  by (auto simp: typeperf_def split: option.splits)

text \<open>One run for each of the two failures.\<close>

theorem C6_startup_failure_closes_sink_witness:
  "typeperf 1 counters (Some ''no pipe'') None [False, False] [Line [CR, LF], Line [CR, LF], Line roundtrip_line]
     = [SourceLog (FailedStdout ''no pipe''), CloseResult] \<and>
   typeperf 1 counters None (Some ''not found'') [False, False] [Line [CR, LF], Line [CR, LF], Line roundtrip_line]
     = [SourceLog (FailedStart ''not found''), CloseResult] \<and>
   \<not> list_ex is_Emit
       (typeperf 1 counters None (Some ''not found'') [False, False] [Line [CR, LF], Line [CR, LF], Line roundtrip_line])"
proof -
  note a = C6_startup_failure_closes_sink[of "Some ''no pipe''" "''no pipe''" 1 counters None "[False, False]"
      "[Line [CR, LF], Line [CR, LF], Line roundtrip_line]" parse_decimal False]
  note b = C6_startup_failure_closes_sink[of None "''not found''" 1 counters "Some ''not found''" "[False, False]"
      "[Line [CR, LF], Line [CR, LF], Line roundtrip_line]" parse_decimal False]
  from a b show ?thesis by simp
qed

text \<open>
  Claim C7, as stated: once the record stream of the counter source closes, the aggregator
  never emits another vector. The channel between the two has a buffer of five records, and
  closing it leaves them there. Here \<^verbatim>\<open>typeperf\<close> reads the two header lines and the line of
  the round trip, emits its record, finds a value on \<^verbatim>\<open>quit\<close> and returns: it has closed the
  stream, and the record is still in the channel. The next receive of \<^verbatim>\<open>SystemStats\<close> takes
  that record with \<^verbatim>\<open>more\<close> true, and the vector for it is sent after the stream was closed;
  only the receive after it reports the closed stream.
\<close>

theorem C7_vector_sent_after_source_closed_counterexample:
  "typeperf 1 counters None None [False, True] [Line [CR, LF], Line [CR, LF], Line roundtrip_line]
     = [Start ''TypePerf'' (counters @ [''-si'', ''1'']), Emit roundtrip_record, Kill, CloseResult] \<and>
   tp_after [Start ''TypePerf'' (counters @ [''-si'', ''1'']), Emit roundtrip_record, Kill, CloseResult] tp_make
     = Some (Chan [roundtrip_record] True) \<and>
   tp_selects 2 (Chan [roundtrip_record] True) = [Received roundtrip_record, StreamClosed] \<and>
   SystemStats_loop parse_decimal False [Received roundtrip_record, StreamClosed]
     = [Send [decimal 452 3, decimal 600 3, decimal 0 3, decimal 125 3], CloseResults] \<and>
   list_ex is_Send (SystemStats_loop parse_decimal False (tp_selects 2 (Chan [roundtrip_record] True)))"
  by code_simp

text \<open>
  Claim C7, amended. The closing of the stream that counts is the one the aggregator's
  receive reports (\<^verbatim>\<open>more\<close> is false, lines 79 to 82). At that turn of the loop the only
  action of the aggregator is to close the results channel, and it does nothing after it,
  whatever happens later: if the loop was still running after the outcomes \<open>earlier\<close>, then
  the actions for \<open>earlier\<close>, the closed stream and any outcomes \<open>later\<close> are the actions for
  \<open>earlier\<close> followed by the close alone. Between the close of \<^verbatim>\<open>typeperf\<close> and that report
  lie the records still buffered in the channel, at most five: on a closed channel the
  receives report these records, oldest first, and then the closed stream; the aggregator
  sends one vector for each of them (records of at most five fields) and then closes the
  results channel.
\<close>

theorem C7_reported_closure_closes_results:
  "(still_sampling earlier \<longrightarrow>
      SystemStats_loop pf debug (earlier @ StreamClosed # later)
        = SystemStats_loop pf debug earlier @ [CloseResults] \<and>
      SystemStats pf debug interval (earlier @ StreamClosed # later)
        = SystemStats pf debug interval earlier @ [CloseResults]) \<and>
   (tp_after acts tp_make = Some c \<longrightarrow>
      length (queue c) \<le> 5 \<and> closed c = (CloseResult \<in> set acts)) \<and>
   (closed c \<longrightarrow>
      tp_selects (length (queue c) + Suc m) c
        = map Received (queue c) @ replicate (Suc m) StreamClosed \<and>
      (list_all (\<lambda>r. length r \<le> 5) (queue c) \<longrightarrow>
         SystemStats_loop pf debug (tp_selects (length (queue c) + Suc m) c)
           = SystemStats_loop pf debug (map Received (queue c)) @ [CloseResults] \<and>
         length (filter is_Send (SystemStats_loop pf debug (tp_selects (length (queue c) + Suc m) c)))
           = length (queue c)))"
proof (intro conjI impI)
  assume "still_sampling earlier"
  then show "SystemStats_loop pf debug (earlier @ StreamClosed # later)
               = SystemStats_loop pf debug earlier @ [CloseResults]"
    and "SystemStats pf debug interval (earlier @ StreamClosed # later)
               = SystemStats pf debug interval earlier @ [CloseResults]"
    by (simp_all add: SystemStats_loop_append SystemStats_def)
next
  assume a: "tp_after acts tp_make = Some c"
  from tp_after_capacity[OF a] show "length (queue c) \<le> 5"
    by (simp add: tp_make_def tp_cap_def)
  from tp_after_closed[OF a] show "closed c = (CloseResult \<in> set acts)"
    by (simp add: tp_make_def)
next
  assume c: "closed c"
  from tp_selects_closed[OF c, of m]
  show sel: "tp_selects (length (queue c) + Suc m) c
               = map Received (queue c) @ replicate (Suc m) StreamClosed" .
  assume "list_all (\<lambda>r. length r \<le> 5) (queue c)"
  from SystemStats_loop_Received[OF this, of pf debug]
  have n: "length (filter is_Send (SystemStats_loop pf debug (map Received (queue c)))) = length (queue c)"
    and st: "still_sampling (map Received (queue c))"
    by simp_all
  from SystemStats_loop_append[OF st, of pf debug "replicate (Suc m) StreamClosed"] sel
  show app: "SystemStats_loop pf debug (tp_selects (length (queue c) + Suc m) c)
               = SystemStats_loop pf debug (map Received (queue c)) @ [CloseResults]"
    by simp
  from app n
  show "length (filter is_Send (SystemStats_loop pf debug (tp_selects (length (queue c) + Suc m) c)))
          = length (queue c)"
    by simp
qed

text \<open>A record and a timeout before the stream is reported closed, and the same after it;
  and the channel that \<^verbatim>\<open>typeperf\<close> has closed with one record in it.\<close>

theorem C7_reported_closure_closes_results_witness:
  "still_sampling [Received malformed_record, TimedOut] \<and>
   SystemStats_loop parse_decimal False
       ([Received malformed_record, TimedOut] @ StreamClosed # [Received malformed_record, TimedOut])
     = SystemStats_loop parse_decimal False [Received malformed_record, TimedOut] @ [CloseResults] \<and>
   tp_after [Start ''TypePerf'' (counters @ [''-si'', ''1'']), Emit roundtrip_record, Kill, CloseResult] tp_make
     = Some (Chan [roundtrip_record] True) \<and>
   closed (Chan [roundtrip_record] True)
     = (CloseResult \<in> set [Start ''TypePerf'' (counters @ [''-si'', ''1'']), Emit roundtrip_record, Kill, CloseResult]) \<and>
   closed (Chan [roundtrip_record] True) \<and>
   length roundtrip_record \<le> 5 \<and>
   tp_selects 2 (Chan [roundtrip_record] True) = [Received roundtrip_record, StreamClosed] \<and>
   SystemStats_loop parse_decimal False (tp_selects 2 (Chan [roundtrip_record] True))
     = SystemStats_loop parse_decimal False [Received roundtrip_record] @ [CloseResults] \<and>
   length (filter is_Send (SystemStats_loop parse_decimal False (tp_selects 2 (Chan [roundtrip_record] True)))) = 1"
proof -
  let ?acts = "[Start ''TypePerf'' (counters @ [''-si'', ''1'']), Emit roundtrip_record, Kill, CloseResult]"
  let ?c = "Chan [roundtrip_record] True"
  have a: "still_sampling [Received malformed_record, TimedOut]"
    by (simp add: malformed_record_def)
  have b: "tp_after ?acts tp_make = Some ?c"
    by (simp add: tp_make_def tp_cap_def)
  have c: "closed ?c" by simp
  have d: "length roundtrip_record \<le> 5" by (simp add: roundtrip_record_def)
  then have e: "list_all (\<lambda>r. length r \<le> 5) (queue ?c)" by simp
  have n: "length (queue ?c) + Suc 0 = 2" by simp
  have q: "map Received (queue ?c) = [Received roundtrip_record]" by simp
  note inst = C7_reported_closure_closes_results[of "[Received malformed_record, TimedOut]" parse_decimal False
      "[Received malformed_record, TimedOut]" 0 ?acts ?c 0, unfolded n q]
  from inst a have p1: "SystemStats_loop parse_decimal False
       ([Received malformed_record, TimedOut] @ StreamClosed # [Received malformed_record, TimedOut])
     = SystemStats_loop parse_decimal False [Received malformed_record, TimedOut] @ [CloseResults]"
    by blast
  from inst b have p0: "closed ?c = (CloseResult \<in> set ?acts)"
    by blast
  from inst c have "tp_selects 2 ?c = [Received roundtrip_record] @ replicate (Suc 0) StreamClosed"
    by blast
  then have p2: "tp_selects 2 ?c = [Received roundtrip_record, StreamClosed]" by simp
  from inst c e have p3: "SystemStats_loop parse_decimal False (tp_selects 2 ?c)
     = SystemStats_loop parse_decimal False [Received roundtrip_record] @ [CloseResults]"
    by blast
  from inst c e have "length (filter is_Send (SystemStats_loop parse_decimal False (tp_selects 2 ?c)))
     = length (queue ?c)"
    by blast
  then have p4: "length (filter is_Send (SystemStats_loop parse_decimal False (tp_selects 2 ?c))) = 1"
    by simp
  from a p1 b p0 c d p2 p3 p4 show ?thesis by blast
qed

text \<open>
  Claim C8. A stall is a \<^verbatim>\<open>select\<close> of the loop that ends by the ten-second timer, with
  neither a record nor the closing of the stream. At such a turn the aggregator logs
  \<^verbatim>\<open>TypePerf read timed out\<close> and sends one value on \<^verbatim>\<open>quit\<close>, then waits again. So while
  the loop runs, the cancellation signals sent and the stalls logged are each as many as the
  stalls.
\<close>

theorem C8_timeout_sends_one_cancellation:
  "SystemStats_loop pf debug (TimedOut # later)
     = Log ReadTimedOut # SendQuit # SystemStats_loop pf debug later \<and>
   (still_sampling outcomes \<longrightarrow>
      count_list (SystemStats pf debug interval outcomes) SendQuit = count_list outcomes TimedOut \<and>
      count_list (SystemStats pf debug interval outcomes) (Log ReadTimedOut) = count_list outcomes TimedOut)"
  by (simp add: SystemStats_def SystemStats_loop_count)

text \<open>Two stalls with a record between them.\<close>

theorem C8_timeout_sends_one_cancellation_witness:
  "still_sampling [TimedOut, Received malformed_record, TimedOut] \<and>
   count_list (SystemStats parse_decimal False 1000000000 [TimedOut, Received malformed_record, TimedOut]) SendQuit = 2 \<and>
   count_list (SystemStats parse_decimal False 1000000000 [TimedOut, Received malformed_record, TimedOut])
     (Log ReadTimedOut) = 2"
proof -
  have a: "still_sampling [TimedOut, Received malformed_record, TimedOut]"
    by (simp add: malformed_record_def)
  from C8_timeout_sends_one_cancellation[of parse_decimal False "[]"
      "[TimedOut, Received malformed_record, TimedOut]" 1000000000] a
  show ?thesis by simp
qed

section \<open>Facts about the binary64 rounding\<close>

lemma pow2_powi: "pow2 e = 2 powi e"
  by (simp add: pow2_def power_int_def power_one_over [symmetric] inverse_eq_divide)

lemma pow2_pos [simp]: "0 < pow2 e"
  by (simp add: pow2_powi)

lemma pow2_nonzero [simp]: "pow2 e \<noteq> 0"
  using pow2_pos[of e] by (simp del: pow2_pos)

lemma pow2_add: "pow2 (a + b) = pow2 a * pow2 b"
  by (simp add: pow2_powi power_int_add)

lemma pow2_diff: "pow2 (a - b) = pow2 a / pow2 b"
  by (simp add: pow2_powi power_int_diff)

lemma pow2_mono: "a \<le> b \<Longrightarrow> pow2 a \<le> pow2 b"
  by (simp add: pow2_powi power_int_increasing)

lemma pow2_strict_mono: "a < b \<Longrightarrow> pow2 a < pow2 b"
  by (simp add: pow2_powi power_int_strict_increasing)

lemma pow2_less_cancel: "pow2 a < pow2 b \<Longrightarrow> a < b"
  using pow2_mono[of b a] by (cases "a < b") auto

lemma pow2_nonneg_exp: "0 \<le> e \<Longrightarrow> pow2 e = 2 ^ nat e"
  by (simp add: pow2_def)

text \<open>\<open>ilog2\<close> is the binary exponent: the one \<open>e\<close> with \<open>2 ^ e \<le> a < 2 ^ (e + 1)\<close>.\<close>

lemma ilog2_bounds:
  assumes "0 < a"
  shows "pow2 (ilog2 a) \<le> a \<and> a < pow2 (ilog2 a + 1)"
proof -
  obtain p q where pq: "quotient_of a = (p, q)" by (cases "quotient_of a")
  then have q: "0 < q" and a: "a = of_int p / of_int q"
    by (simp_all add: quotient_of_denom_pos quotient_of_div)
  with assms have p: "0 < p" by (simp add: zero_less_divide_iff)
  define bp where "bp = bitlen p"
  define bq where "bq = bitlen q"
  have bp1: "1 \<le> bp" using p bitlen_nonneg[of p] bitlen_eq_zero_iff[of p] by (simp add: bp_def)
  have bq1: "1 \<le> bq" using q bitlen_nonneg[of q] bitlen_eq_zero_iff[of q] by (simp add: bq_def)
  from bitlen_bounds[OF p] have "(2::int) ^ nat (bp - 1) \<le> p" "p < 2 ^ nat bp"
    by (simp_all add: bp_def)
  then have "(of_int (2 ^ nat (bp - 1)) :: rat) \<le> of_int p" "(of_int p :: rat) < of_int (2 ^ nat bp)"
    by (simp_all only: of_int_le_iff of_int_less_iff)
  with bp1 have P: "pow2 (bp - 1) \<le> of_int p" "of_int p < pow2 bp"
    by (simp_all add: pow2_nonneg_exp)
  from bitlen_bounds[OF q] have "(2::int) ^ nat (bq - 1) \<le> q" "q < 2 ^ nat bq"
    by (simp_all add: bq_def)
  then have "(of_int (2 ^ nat (bq - 1)) :: rat) \<le> of_int q" "(of_int q :: rat) < of_int (2 ^ nat bq)"
    by (simp_all only: of_int_le_iff of_int_less_iff)
  with bq1 have Q: "pow2 (bq - 1) \<le> of_int q" "of_int q < pow2 bq"
    by (simp_all add: pow2_nonneg_exp)
  have Ppos: "(0::rat) < of_int p" and Qpos: "(0::rat) < of_int q" using p q by simp_all
  have "a < pow2 bp / pow2 (bq - 1)"
    unfolding a using P Q Ppos by (intro frac_less) simp_all
  then have up: "a < pow2 (bp - bq + 1)"
    by (simp add: pow2_diff [symmetric] algebra_simps)
  have "pow2 (bp - 1) / pow2 bq < a"
    unfolding a using P Q Qpos by (intro frac_less2) simp_all
  then have low: "pow2 (bp - bq - 1) < a"
    by (simp add: pow2_diff [symmetric] algebra_simps)
  have il: "ilog2 a = (if pow2 (bp - bq) \<le> a then bp - bq else bp - bq - 1)"
    by (simp add: ilog2_def pq bp_def bq_def Let_def)
  show ?thesis
  proof (cases "pow2 (bp - bq) \<le> a")
    case True
    with il up show ?thesis by simp
  next
    case False
    with il low show ?thesis by simp
  qed
qed

lemma ilog2_unique:
  assumes "0 < a" and "pow2 e \<le> a" and "a < pow2 (e + 1)"
  shows "ilog2 a = e"
proof -
  from ilog2_bounds[OF assms(1)] have b: "pow2 (ilog2 a) \<le> a" "a < pow2 (ilog2 a + 1)" by simp_all
  from b(1) assms(3) have "pow2 (ilog2 a) < pow2 (e + 1)" by simp
  then have "ilog2 a < e + 1" by (rule pow2_less_cancel)
  moreover from assms(2) b(2) have "pow2 e < pow2 (ilog2 a + 1)" by simp
  then have "e < ilog2 a + 1" by (rule pow2_less_cancel)
  ultimately show ?thesis by simp
qed

subsection \<open>Rounding to an integer\<close>

lemma round_half_even_ge_floor: "\<lfloor>z\<rfloor> \<le> round_half_even z"
  by (simp add: round_half_even_def Let_def)

lemma round_half_even_ge:
  assumes "of_int K \<le> z"
  shows "K \<le> round_half_even z"
proof -
  from assms have "K \<le> \<lfloor>z\<rfloor>" by (simp add: le_floor_iff)
  with round_half_even_ge_floor[of z] show ?thesis by simp
qed

lemma round_half_even_le: "z \<le> of_int K \<Longrightarrow> round_half_even z \<le> K"
proof -
  assume z: "z \<le> of_int K"
  show ?thesis
  proof (cases "z = of_int K")
    case True
    then show ?thesis by (simp add: round_half_even_def Let_def)
  next
    case False
    with z have "z < of_int K" by simp
    then have "\<lfloor>z\<rfloor> < K" by (simp add: floor_less_iff)
    then have "\<lfloor>z\<rfloor> + 1 \<le> K" by simp
    then show ?thesis by (simp add: round_half_even_def Let_def)
  qed
qed

lemma round_half_even_less:
  assumes "z < of_int K - 1 / 2"
  shows "round_half_even z < K"
proof -
  from assms have "z < of_int K" by simp
  then have f: "\<lfloor>z\<rfloor> < K" by (simp add: floor_less_iff)
  show ?thesis
  proof (cases "\<lfloor>z\<rfloor> + 1 < K")
    case True
    then show ?thesis by (simp add: round_half_even_def Let_def)
  next
    case False
    with f have eq: "\<lfloor>z\<rfloor> = K - 1" by simp
    with assms have "z - of_int \<lfloor>z\<rfloor> < 1 / 2" by simp
    with f show ?thesis by (simp add: round_half_even_def Let_def)
  qed
qed

lemma round_half_even_of_int [simp]: "round_half_even (of_int k) = k"
  by (simp add: round_half_even_def Let_def)

lemma round_half_even_upper: "of_int (round_half_even z) \<le> z + 1 / 2"
proof -
  define f where "f = \<lfloor>z\<rfloor>"
  have fz: "of_int f \<le> z" by (simp add: f_def)
  have "round_half_even z = f \<or> (round_half_even z = f + 1 \<and> 1 / 2 \<le> z - of_int f)"
    by (auto simp: round_half_even_def Let_def f_def)
  then show ?thesis
  proof
    assume "round_half_even z = f"
    with fz show ?thesis by simp
  next
    assume "round_half_even z = f + 1 \<and> 1 / 2 \<le> z - of_int f"
    then show ?thesis by simp
  qed
qed

subsection \<open>Rounding to binary64 in the normal range\<close>

text \<open>A positive \<open>x\<close> with binary exponent \<open>e\<close> in the normal range is rounded to a multiple
  \<open>m * 2 ^ (e - 52)\<close> with a significand \<open>m\<close> of 53 bits; integers below \<open>2 ^ 53\<close> are
  not changed.\<close>

lemma round64_pos:
  assumes "pow2 e \<le> x" and "x < pow2 (e + 1)" and "- 1022 \<le> e" and "e \<le> 1022"
  shows "round64 x = Num (of_int (round_half_even (x / pow2 (e - 52))) * pow2 (e - 52))"
    and "2 ^ 52 \<le> round_half_even (x / pow2 (e - 52))"
    and "round_half_even (x / pow2 (e - 52)) \<le> 2 ^ 53"
proof -
  let ?u = "pow2 (e - 52)"
  let ?m = "round_half_even (x / ?u)"
  have xpos: "0 < x" by (rule less_le_trans[OF pow2_pos assms(1)])
  then have il: "ilog2 \<bar>x\<bar> = e" using assms(1,2) by (simp add: ilog2_unique)
  have qe: "max (e - 52) (- 1074) = e - 52" using assms(3) by simp
  have e_split: "pow2 e = pow2 52 * ?u" "pow2 (e + 1) = pow2 53 * ?u"
    using pow2_add[of 52 "e - 52"] pow2_add[of 53 "e - 52"] by (simp_all add: add.commute)
  have p52: "pow2 52 = 2 ^ 52" and p53: "pow2 53 = 2 ^ 53" by (simp_all add: pow2_def)
  from assms(1) e_split(1) have "pow2 52 \<le> x / ?u" by (simp add: pos_le_divide_eq)
  then have "of_int (2 ^ 52) \<le> x / ?u" by (simp add: p52)
  then show lo: "2 ^ 52 \<le> ?m" by (rule round_half_even_ge)
  from assms(2) e_split(2) have "x / ?u < pow2 53" by (simp add: pos_divide_less_eq)
  then have "x / ?u \<le> of_int (2 ^ 53)" by (simp add: p53)
  then show hi: "?m \<le> 2 ^ 53" by (rule round_half_even_le)
  from hi have "?m < 2 ^ nat 54" by simp
  then have "bitlen ?m \<le> 54" by (simp add: bitlen_le_iff_power)
  with assms(4) have no_ov: "\<not> 1024 < bitlen ?m + (e - 52)" by simp
  from lo have nz: "?m \<noteq> 0" by simp
  from xpos il qe no_ov nz show "round64 x = Num (of_int ?m * ?u)"
    by (simp add: round64_def Let_def)
qed

lemma round64_of_int_exact:
  assumes "0 \<le> k" and "k < 2 ^ 53"
  shows "round64 (of_int k) = Num (of_int k)"
proof (cases "k = 0")
  case True
  then show ?thesis by (simp add: round64_def)
next
  case False
  with assms have k1: "1 \<le> k" by simp
  let ?x = "of_int k :: rat"
  define e where "e = ilog2 ?x"
  from k1 have xpos: "0 < ?x" by simp
  from ilog2_bounds[OF xpos] have b: "pow2 e \<le> ?x" "?x < pow2 (e + 1)" by (simp_all add: e_def)
  have e0: "0 \<le> e"
  proof (rule ccontr)
    assume "\<not> 0 \<le> e"
    then have "pow2 (e + 1) \<le> pow2 0" by (intro pow2_mono) simp
    with b(2) have "?x < 1" by (simp add: pow2_def)
    with k1 show False by simp
  qed
  have e52: "e \<le> 52"
  proof -
    from assms(2) have "?x < of_int (2 ^ 53)" by (simp only: of_int_less_iff)
    then have "?x < pow2 53" by (simp add: pow2_def)
    with b(1) have "pow2 e < pow2 53" by simp
    then have "e < 53" by (rule pow2_less_cancel)
    then show ?thesis by simp
  qed
  have u: "pow2 (e - 52) = 1 / 2 ^ nat (52 - e)"
    using e52 by (cases "e = 52") (simp_all add: pow2_def)
  then have z: "?x / pow2 (e - 52) = of_int (k * 2 ^ nat (52 - e))" by simp
  from e0 e52 have "- 1022 \<le> e" "e \<le> 1022" by simp_all
  from round64_pos(1)[OF b this]
  have "round64 ?x = Num (of_int (round_half_even (?x / pow2 (e - 52))) * pow2 (e - 52))" .
  also have "round_half_even (?x / pow2 (e - 52)) = k * 2 ^ nat (52 - e)"
    by (simp only: z round_half_even_of_int)
  also have "of_int (k * 2 ^ nat (52 - e)) * pow2 (e - 52) = ?x"
    by (simp add: u)
  finally show ?thesis .
qed

subsection \<open>Duration.Seconds and the conversion to uint\<close>

text \<open>
  \<^verbatim>\<open>Seconds\<close> rounds twice: the quotient of the nanoseconds by \<open>10 ^ 9\<close>, and its sum with
  the whole seconds. For less than \<open>2 ^ 24\<close> seconds the unit in the last place of the sum
  is at most \<open>2 ^ -29\<close>, less than twice the nanosecond that the fraction is below 1 by, so
  that the sum stays below the next whole second.
\<close>

lemma round64_fraction_of_second:
  assumes "1 \<le> n" and "n < 1000000000"
  shows "\<exists>a. round64 (of_int n / 1000000000) = Num a \<and> 1 / 2 ^ 30 \<le> a \<and>
              a \<le> 1 - 1 / 10 ^ 9 + 1 / 2 ^ 54"
proof -
  define x :: rat where "x = of_int n / 1000000000"
  define e where "e = ilog2 x"
  from assms have n1: "(1::rat) \<le> of_int n" and n2: "(of_int n :: rat) \<le> 999999999" by simp_all
  from n1 have xlo: "1 / 10 ^ 9 \<le> x" by (simp add: x_def)
  from n2 have xhi: "x \<le> 1 - 1 / 10 ^ 9" by (simp add: x_def)
  from xlo have xpos: "0 < x" by simp
  from ilog2_bounds[OF xpos] have b: "pow2 e \<le> x" "x < pow2 (e + 1)" by (simp_all add: e_def)
  have e_hi: "e \<le> - 1"
  proof -
    from xhi have "x < pow2 0" by (simp add: pow2_def)
    with b(1) have "pow2 e < pow2 0" by simp
    then have "e < 0" by (rule pow2_less_cancel)
    then show ?thesis by simp
  qed
  have e_lo: "- 30 \<le> e"
  proof -
    have "pow2 (- 30) \<le> 1 / 10 ^ 9" by (simp add: pow2_def)
    with xlo b(2) have "pow2 (- 30) < pow2 (e + 1)" by simp
    then have "- 30 < e + 1" by (rule pow2_less_cancel)
    then show ?thesis by simp
  qed
  let ?u = "pow2 (e - 52)"
  let ?m = "round_half_even (x / ?u)"
  from e_lo e_hi have "- 1022 \<le> e" "e \<le> 1022" by simp_all
  note r = round64_pos[OF b this]
  have upos: "0 < ?u" by simp
  have "pow2 (- 30) \<le> pow2 e" using e_lo by (rule pow2_mono)
  also have "pow2 e = pow2 52 * ?u" using pow2_add[of 52 "e - 52"] by simp
  also have "\<dots> \<le> of_int ?m * ?u"
  proof -
    from r(2) have "(of_int (2 ^ 52) :: rat) \<le> of_int ?m" by (simp only: of_int_le_iff)
    then have "pow2 52 \<le> of_int ?m" by (simp add: pow2_def)
    with upos show ?thesis by (simp add: mult_right_mono)
  qed
  finally have lo: "1 / 2 ^ 30 \<le> of_int ?m * ?u" by (simp add: pow2_def)
  have "of_int ?m * ?u \<le> (x / ?u + 1 / 2) * ?u"
    using round_half_even_upper[of "x / ?u"] upos by (simp add: mult_right_mono)
  also have "\<dots> = x + ?u / 2" using upos by (simp add: field_simps)
  also have "?u \<le> pow2 (- 53)" using e_hi by (intro pow2_mono) simp
  then have "x + ?u / 2 \<le> x + pow2 (- 53) / 2" by simp
  also have "\<dots> \<le> 1 - 1 / 10 ^ 9 + 1 / 2 ^ 54" using xhi by (simp add: pow2_def)
  finally have hi: "of_int ?m * ?u \<le> 1 - 1 / 10 ^ 9 + 1 / 2 ^ 54" .
  from r(1) lo hi show ?thesis unfolding x_def by blast
qed

lemma round64_seconds_sum:
  assumes "0 \<le> s" and "s < 16777216"
    and "1 / 2 ^ 30 \<le> a" and "a \<le> 1 - 1 / 10 ^ 9 + 1 / 2 ^ 54"
  shows "\<exists>r. round64 (of_int s + a) = Num r \<and> of_int s \<le> r \<and> r < of_int s + 1"
proof -
  define y :: rat where "y = of_int s + a"
  define e where "e = ilog2 y"
  from assms(1) have s0: "(0::rat) \<le> of_int s" by simp
  from assms(2) have "s \<le> 16777215" by simp
  then have s1: "(of_int s :: rat) \<le> 16777215" by (simp only: of_int_le_numeral_iff)
  from assms(3) have apos: "0 < a" by (rule less_le_trans[rotated]) simp
  from assms(4) have a1: "a < 1" by simp
  from s0 assms(3) have ylo: "1 / 2 ^ 30 \<le> y" by (simp add: y_def)
  from s1 a1 have yhi: "y < 16777216" by (simp add: y_def)
  from s0 apos have ypos: "0 < y" by (simp add: y_def)
  from ilog2_bounds[OF ypos] have b: "pow2 e \<le> y" "y < pow2 (e + 1)" by (simp_all add: e_def)
  have e_hi: "e \<le> 23"
  proof -
    from yhi have "y < pow2 24" by (simp add: pow2_def)
    with b(1) have "pow2 e < pow2 24" by simp
    then have "e < 24" by (rule pow2_less_cancel)
    then show ?thesis by simp
  qed
  have e_lo: "- 30 \<le> e"
  proof -
    have "pow2 (- 30) = 1 / 2 ^ 30" by (simp add: pow2_def)
    with ylo b(2) have "pow2 (- 30) < pow2 (e + 1)" by simp
    then have "- 30 < e + 1" by (rule pow2_less_cancel)
    then show ?thesis by simp
  qed
  let ?u = "pow2 (e - 52)"
  let ?M = "round_half_even (y / ?u)"
  define c :: int where "c = 2 ^ nat (52 - e)"
  from e_lo e_hi have "- 1022 \<le> e" "e \<le> 1022" by simp_all
  note r = round64_pos[OF b this]
  have upos: "0 < ?u" by simp
  have u: "?u = 1 / of_int c" using e_hi by (simp add: pow2_def c_def)
  have cpos: "(0::rat) < of_int c" by (simp add: c_def)
  have u_small: "?u / 2 \<le> 1 / 2 ^ 30"
  proof -
    have "?u \<le> pow2 (- 29)" using e_hi by (intro pow2_mono) simp
    then show ?thesis by (simp add: pow2_def)
  qed
  have lower: "of_int s \<le> of_int ?M * ?u"
  proof -
    have "of_int (s * c) = of_int s / ?u" by (simp add: u)
    also have "\<dots> \<le> y / ?u"
    proof (rule divide_right_mono)
      show "of_int s \<le> y" using apos by (simp add: y_def)
      show "0 \<le> ?u" by (rule less_imp_le[OF pow2_pos])
    qed
    finally have "s * c \<le> ?M" by (rule round_half_even_ge)
    then have "(of_int (s * c) :: rat) \<le> of_int ?M" by (simp only: of_int_le_iff)
    then have "of_int (s * c) * ?u \<le> of_int ?M * ?u" using upos by (simp add: mult_right_mono)
    then show ?thesis using cpos by (simp add: u)
  qed
  have upper: "of_int ?M * ?u < of_int s + 1"
  proof -
    have "a + ?u / 2 < 1" using assms(4) u_small by simp
    then have "y < (of_int s + 1) - ?u / 2" by (simp add: y_def)
    then have "y / ?u < ((of_int s + 1) - ?u / 2) / ?u"
      by (rule divide_strict_right_mono) (rule pow2_pos)
    also have "\<dots> = of_int ((s + 1) * c) - 1 / 2" using cpos by (simp add: u field_simps)
    finally have "?M < (s + 1) * c" by (rule round_half_even_less)
    then have "?M + 1 \<le> (s + 1) * c" by simp
    then have "(of_int (?M + 1) :: rat) \<le> of_int ((s + 1) * c)" by (simp only: of_int_le_iff)
    then have "of_int (?M + 1) * ?u \<le> of_int ((s + 1) * c) * ?u"
      using upos by (simp add: mult_right_mono)
    also have "\<dots> = of_int s + 1" using cpos by (simp add: u)
    finally have "of_int ?M * ?u + ?u \<le> of_int s + 1" by (simp add: algebra_simps)
    with upos show ?thesis by linarith
  qed
  from r(1) lower upper show ?thesis unfolding y_def by blast
qed

lemma go_quo_rem_nonneg:
  assumes "0 \<le> d"
  shows "go_quo d Second = d div Second" and "go_rem d Second = d mod Second"
proof -
  from assms show q: "go_quo d Second = d div Second"
    by (cases "d = 0") (simp_all add: go_quo_def Second_def)
  show "go_rem d Second = d mod Second"
    by (simp add: go_rem_def q minus_mult_div_eq_mod)
qed

lemma Seconds_whole:
  assumes "0 \<le> d" and "d < 16777216 * Second"
  shows "\<exists>r. Seconds d = Num r \<and> of_int (d div Second) \<le> r \<and> r < of_int (d div Second) + 1"
proof -
  define s where "s = d div Second"
  define n where "n = d mod Second"
  from assms have s: "0 \<le> s" "s < 16777216" by (simp_all add: s_def Second_def)
  have n: "0 \<le> n" "n < 1000000000" by (simp_all add: n_def Second_def)
  from s have fs: "float64_of_int s = Num (of_int s)"
    by (simp add: float64_of_int_def round64_of_int_exact)
  from n have fn: "float64_of_int n = Num (of_int n)"
    by (simp add: float64_of_int_def round64_of_int_exact)
  have sec: "Seconds d = fadd (Num (of_int s)) (fdiv (Num (of_int n)) (Num 1000000000))"
    by (simp add: Seconds_def go_quo_rem_nonneg[OF assms(1)] s_def [symmetric] n_def [symmetric] fs fn)
  show ?thesis
  proof (cases "n = 0")
    case True
    then have fd: "fdiv (Num (of_int n)) (Num 1000000000) = Num 0"
      by (simp add: fdiv_def signed_zero_def)
    have "fadd (Num (of_int s)) (Num 0) = Num (of_int s)"
    proof (cases "s = 0")
      case True
      then show ?thesis by (simp add: fadd_def signed_zero_def)
    next
      case False
      with s round64_of_int_exact[of s] show ?thesis by (simp add: fadd_def)
    qed
    with sec fd have "Seconds d = Num (of_int s)" by simp
    then show ?thesis by (simp add: s_def)
  next
    case False
    with n have n1: "1 \<le> n" by simp
    from round64_fraction_of_second[OF n1 n(2)] obtain a where
      a: "round64 (of_int n / 1000000000) = Num a" "1 / 2 ^ 30 \<le> a" "a \<le> 1 - 1 / 10 ^ 9 + 1 / 2 ^ 54"
      by blast
    from False a(1) have fd: "fdiv (Num (of_int n)) (Num 1000000000) = Num a"
      by (simp add: fdiv_def)
    from a(2) have a0: "a \<noteq> 0" by auto
    from round64_seconds_sum[OF s a(2,3)] obtain r where
      r: "round64 (of_int s + a) = Num r" "of_int s \<le> r" "r < of_int s + 1"
      by blast
    from a0 r(1) have "fadd (Num (of_int s)) (Num a) = Num r"
      by (simp add: fadd_def)
    with sec fd have "Seconds d = Num r" by simp
    with r(2,3) show ?thesis by (auto simp: s_def)
  qed
qed

lemma uint_of_Seconds:
  assumes "0 \<le> d" and "d < 16777216 * Second"
  shows "uint_of_float64 (Seconds d) = Some (word_of_int (d div Second))"
proof -
  from Seconds_whole[OF assms] obtain r where
    r: "Seconds d = Num r" "of_int (d div Second) \<le> r" "r < of_int (d div Second) + 1"
    by blast
  from assms(1) have s0: "0 \<le> d div Second" by (simp add: Second_def)
  from assms have s1: "d div Second < 16777216" by (simp add: Second_def)
  from r(2,3) have fl: "\<lfloor>r\<rfloor> = d div Second" by (simp add: floor_unique)
  from s0 r(2) have "0 \<le> r" by (meson of_int_0_le_iff order_trans)
  with fl have "truncate_rat r = d div Second" by (simp add: truncate_rat_def)
  with r(1) s0 s1 show ?thesis by (simp add: uint_of_float64_def Let_def)
qed

lemma sint_whole_seconds:
  assumes "0 \<le> s" and "s < 16777216"
  shows "sint (word_of_int s :: 64 word) = s"
proof -
  from assms have "- (2 ^ 63) \<le> s" "s < 2 ^ 63" by simp_all
  then show ?thesis
    by (simp add: sint_sbintrunc' signed_take_bit_int_eq_self)
qed

text \<open>From \<open>2 ^ 24\<close> seconds on the sum can reach the next whole second.\<close>

lemma Seconds_rounds_up_beyond_range:
  "Seconds 16777216999999999 = Num 16777217"
  by code_simp

section \<open>The interval passed to TypePerf\<close>

text \<open>What the code does with the interval: for every interval \<open>d\<close> (in nanoseconds) from 0
  to less than \<open>2 ^ 24\<close> seconds, \<^verbatim>\<open>SystemStats\<close> starts \<^verbatim>\<open>typeperf\<close> with \<open>d\<close> truncated to whole
  seconds, \<open>d div Second\<close>, and the argument list of the subprocess is the counters followed
  by \<^verbatim>\<open>-si\<close> and the decimal digits of that number.\<close>

lemma interval_truncated_to_whole_seconds:
  assumes "0 \<le> d" and "d < 16777216 * Second"
  shows "hd (SystemStats pf debug d outcomes)
           = GoTypeperf (Some (word_of_int (d div Second))) counters \<and>
         hd (typeperf (word_of_int (d div Second)) counters None None quits reads)
           = Start ''TypePerf'' (counters @ [''-si'', Itoa (d div Second)])"
proof -
  from assms have s: "0 \<le> d div Second" "d div Second < 16777216" by (simp_all add: Second_def)
  from uint_of_Seconds[OF assms] sint_whole_seconds[OF s] show ?thesis
    by (simp add: SystemStats_def typeperf_def typeperf_args_def)
qed

text \<open>
  Claim C5. The value placed after \<^verbatim>\<open>-si\<close> is to be the requested duration rounded to whole
  seconds, as the comment of \<^verbatim>\<open>SystemStats\<close> on line 61 also says (\<^verbatim>\<open>at the specified
  interval, rounded to whole seconds\<close>). The conversion \<^verbatim>\<open>uint(interval.Seconds())\<close> of line 67
  discards the fraction instead. The code at the interval of 1.9 seconds
  (\<^verbatim>\<open>1900 * time.Millisecond\<close>): \<^verbatim>\<open>SystemStats\<close> starts \<^verbatim>\<open>typeperf\<close> with the interval 1, and
  \<^verbatim>\<open>typeperf\<close> passes \<^verbatim>\<open>-si 1\<close> to the subprocess; 1.9 seconds rounded to whole seconds are 2.
\<close>

theorem C5_interval_of_1900_milliseconds:
  "hd (SystemStats parse_decimal False 1900000000 [])
     = GoTypeperf (Some 1) counters \<and>
   hd (typeperf 1 counters None None [] [])
     = Start ''TypePerf'' (counters @ [''-si'', ''1'']) \<and>
   round_nearest (of_int 1900000000 / of_int Second) = 2 \<and>
   Itoa 2 \<noteq> ''1''"
  by code_simp

end
